theory Spec2Isabelle
  imports Main "HOL-Library.AList"
begin

section \<open>Data model\<close>

text \<open>
  The program works on the JSON objects of the catalog service. An asset is a dictionary;
  the keys the duplicate code reads are modelled as record fields. The keys
  \<^verbatim>\<open>id\<close>, \<^verbatim>\<open>originalPath\<close> and \<^verbatim>\<open>visibility\<close>, read with
  \<^verbatim>\<open>asset[key]\<close>, are strings the service always sends; \<^verbatim>\<open>libraryId\<close> is a
  string or \<^verbatim>\<open>null\<close>; \<^verbatim>\<open>duplicateId\<close>, read with
  \<^verbatim>\<open>asset.get("duplicateId", None)\<close>, is \<open>None\<close> when the key is absent or
  \<^verbatim>\<open>null\<close>. Python compares dictionaries by their contents; equality of records
  does the same.

  \<^verbatim>\<open>exifInfo\<close> can be absent, \<^verbatim>\<open>null\<close> or an object. The object is a
  dictionary from keys to values, and the values the scorer reads are integers or
  \<^verbatim>\<open>null\<close> in the schema of the service. The service sends the byte size of the file
  under the key \<^verbatim>\<open>fileSizeInByte\<close> and the pixel sizes under
  \<^verbatim>\<open>exifImageWidth\<close> and \<^verbatim>\<open>exifImageHeight\<close>.
\<close>

datatype json = JNull | JInt int

datatype exif_info = ExifAbsent | ExifNull | Exif "string \<rightharpoonup> json"

record asset =
  asset_id :: string
  originalPath :: string
  libraryId :: "string option"
  visibility :: string
  duplicateId :: "string option"
  exifInfo :: exif_info

record dup_set =
  dup_duplicateId :: string
  assets :: "asset list"

record library =
  lib_id :: string
  lib_name :: string

text \<open>The exceptions of the code modelled: \<^verbatim>\<open>max([])\<close>, an operation on
  \<^verbatim>\<open>None\<close> that needs a number, and \<^verbatim>\<open>None.get\<close>.\<close>

datatype py_error = ValueError | TypeError | AttributeError

section \<open>Path prefixes: \<^verbatim>\<open>pfx\<close>\<close>

text \<open>\<^verbatim>\<open>str.split(sep)\<close> for a one-character separator: the fields between the separators,
  the empty ones included; the empty string gives one empty field.\<close>

fun split :: "char \<Rightarrow> string \<Rightarrow> string list" where
  "split c [] = [[]]"
| "split c (x # xs) =
     (if x = c then [] # split c xs
      else (case split c xs of [] \<Rightarrow> [[x]] | w # ws \<Rightarrow> (x # w) # ws))"

text \<open>\<^verbatim>\<open>sep.join(fields)\<close>\<close>

fun join :: "string \<Rightarrow> string list \<Rightarrow> string" where
  "join sep [] = []"
| "join sep [w] = w"
| "join sep (w # v # ws) = w @ sep @ join sep (v # ws)"

text \<open>\<^verbatim>\<open>return "/".join(path.split("/")[:3])\<close>\<close>

definition pfx :: "string \<Rightarrow> string" where
  "pfx path = join ''/'' (take 3 (split CHR ''/'' path))"

section \<open>The quality scorer: \<^verbatim>\<open>best_copy\<close>\<close>

text \<open>\<^verbatim>\<open>asset.get("exifInfo", {}).get(key, 0)\<close>: the default 0 stands for an absent
  \<^verbatim>\<open>exifInfo\<close> and for an absent key only. A key present with \<^verbatim>\<open>null\<close> gives
  \<^verbatim>\<open>None\<close>, and an \<^verbatim>\<open>exifInfo\<close> that is \<^verbatim>\<open>null\<close> has no
  \<^verbatim>\<open>get\<close>.\<close>

definition exif_get :: "asset \<Rightarrow> string \<Rightarrow> py_error + json" where
  "exif_get a key =
     (case exifInfo a of
        ExifAbsent \<Rightarrow> Inr (JInt 0)
      | ExifNull \<Rightarrow> Inl AttributeError
      | Exif d \<Rightarrow> (case d key of None \<Rightarrow> Inr (JInt 0) | Some v \<Rightarrow> Inr v))"

text \<open>The number a value is used as: \<^verbatim>\<open>int(None)\<close> and \<^verbatim>\<open>None > max_size\<close>
  raise \<^verbatim>\<open>TypeError\<close>.\<close>

definition py_int :: "json \<Rightarrow> py_error + int" where
  "py_int v = (case v of JNull \<Rightarrow> Inl TypeError | JInt n \<Rightarrow> Inr n)"

text \<open>The code reads the key \<^verbatim>\<open>fileSizeInbyte\<close>.\<close>

definition asset_file_size :: "asset \<Rightarrow> py_error + int" where
  "asset_file_size a =
     (case exif_get a ''fileSizeInbyte'' of Inl e \<Rightarrow> Inl e | Inr v \<Rightarrow> py_int v)"

definition asset_width :: "asset \<Rightarrow> py_error + int" where
  "asset_width a =
     (case exif_get a ''exifImageWidth'' of Inl e \<Rightarrow> Inl e | Inr v \<Rightarrow> py_int v)"

definition asset_height :: "asset \<Rightarrow> py_error + int" where
  "asset_height a =
     (case exif_get a ''exifImageHeight'' of Inl e \<Rightarrow> Inl e | Inr v \<Rightarrow> py_int v)"

definition asset_dims :: "asset \<Rightarrow> py_error + int" where
  "asset_dims a =
     (case asset_width a of
        Inl e \<Rightarrow> Inl e
      | Inr w \<Rightarrow> (case asset_height a of Inl e \<Rightarrow> Inl e | Inr h \<Rightarrow> Inr (w * h)))"

text \<open>One step of the tracking of a maximum and of the indices that attain it:
  \<^verbatim>\<open>if v > m: m = v; idxs = [idx]  elif v == m: idxs.append(idx)\<close>\<close>

definition track :: "int \<Rightarrow> nat \<Rightarrow> int \<times> nat list \<Rightarrow> int \<times> nat list" where
  "track v idx st =
     (case st of (m, idxs) \<Rightarrow>
        if v > m then (v, [idx])
        else if v = m then (m, idxs @ [idx])
        else (m, idxs))"

text \<open>The first loop of \<^verbatim>\<open>best_copy\<close>, \<^verbatim>\<open>for idx, asset in enumerate(assets)\<close>, on the
  state \<open>((max_size, max_size_idx), (max_dims, max_dims_idx))\<close>. An exception raised for
  an asset ends the loop and the function.\<close>

fun scan :: "asset list \<Rightarrow> nat \<Rightarrow> (int \<times> nat list) \<times> (int \<times> nat list)
    \<Rightarrow> py_error + (int \<times> nat list) \<times> (int \<times> nat list)" where
  "scan [] idx st = Inr st"
| "scan (a # as) idx st =
     (case asset_file_size a of
        Inl e \<Rightarrow> Inl e
      | Inr sz \<Rightarrow>
          (case asset_dims a of
             Inl e \<Rightarrow> Inl e
           | Inr d \<Rightarrow> scan as (Suc idx) (track sz idx (fst st), track d idx (snd st))))"

text \<open>\<^verbatim>\<open>for idx in idxs: scores[idx] += c\<close>\<close>

definition add_score :: "int \<Rightarrow> nat list \<Rightarrow> int list \<Rightarrow> int list" where
  "add_score c idxs scores = fold (\<lambda>idx sc. sc[idx := sc ! idx + c]) idxs scores"

definition scores_of :: "asset list \<Rightarrow> py_error + int list" where
  "scores_of as =
     (case scan as 0 ((0, []), (0, [])) of
        Inl e \<Rightarrow> Inl e
      | Inr st \<Rightarrow>
          (let max_size_idx = snd (fst st);
               max_dims_idx = snd (snd st)
           in Inr (add_score 8 max_dims_idx
                     (add_score 2 max_size_idx (replicate (length as) 0)))))"

text \<open>\<^verbatim>\<open>max(scores)\<close> raises \<^verbatim>\<open>ValueError\<close> on the empty list.\<close>

definition py_max :: "int list \<Rightarrow> py_error + int" where
  "py_max xs = (case xs of [] \<Rightarrow> Inl ValueError | x # ys \<Rightarrow> Inr (fold max ys x))"

definition is_timeline :: "asset \<Rightarrow> bool" where
  "is_timeline ass = (visibility ass = ''timeline'')"

definition max_scorers_of :: "asset list \<Rightarrow> int list \<Rightarrow> int \<Rightarrow> asset list" where
  "max_scorers_of as scores max_score =
     map (\<lambda>n. as ! n) (filter (\<lambda>n. scores ! n = max_score) [0..<length as])"

definition best_copy :: "asset list \<Rightarrow> py_error + asset" where
  "best_copy as =
     (case scores_of as of
        Inl e \<Rightarrow> Inl e
      | Inr scores \<Rightarrow>
          (case py_max scores of
             Inl e \<Rightarrow> Inl e
           | Inr max_score \<Rightarrow>
               (let max_scorers = max_scorers_of as scores max_score in
                case (if list_ex is_timeline max_scorers
                      then find is_timeline max_scorers else None) of
                  Some ass \<Rightarrow> Inr ass
                | None \<Rightarrow>
                    (case find (\<lambda>p. snd p = max_score) (enumerate 0 scores) of
                       Some p \<Rightarrow> Inr (as ! fst p)
                     | None \<Rightarrow> Inr (as ! 0)))))"

section \<open>The resolution engine: \<^verbatim>\<open>dedup\<close>\<close>

text \<open>The class attribute \<^verbatim>\<open>path_prefix_priority_list\<close>, most preferred first.\<close>

definition path_prefix_priority_list :: "string list" where
  "path_prefix_priority_list =
    [''/photos/wedding'',
     ''/photos/undisposed'',
     ''/photos/sarah'',
     ''/dropbox/may-mays_and_gifs'',
     ''/photos/misc'',
     ''/photos/img'',
     ''/photos/digital'',
     ''/photos/2007-01 bink Pictures'',
     ''/photos/2021-06-15 photos'',
     ''/photos/kittens'',
     ''/photos/blackhat_2010'',
     ''/photos/STScI-01G7ETPF7DVBJAC42JR5N6EQRH.png'',
     ''/photos/lighthouse'',
     ''/photos/LIT-18616-03-73'',
     ''/photos/DEF CON 29 pictures'',
     ''/photos/rochester'',
     ''/photos/hawks.png'',
     ''/photos/ac'',
     ''/photos/masonlake'',
     ''/photos/bp98-positron'',
     ''/photos/headshot candidates'',
     ''/photos/enhjr0thbday'',
     ''/photos/van'',
     ''/photos/osprey.jpg'',
     ''/photos/win Pictures'',
     ''/photos/sign'',
     ''/photos/tord'',
     ''/photos/space'',
     ''/photos/home'',
     ''/photos/shadok-party'',
     ''/photos/rock'',
     ''/photos/photos'',
     ''/photos/OneDrive 2023-10-17'',
     ''/photos/vacation'',
     ''/photos/xj'',
     ''/photos/DEF CON 30 pictures'',
     ''/photos/office'',
     ''/photos/nyc'',
     ''/photos/corner'',
     ''/photos/calendar photos from sarah November 2024'',
     ''/photos/f150.jpg'',
     ''/photos/DC30'',
     ''/photos/home_infra'',
     ''/photos/old panasonic card'',
     ''/photos/spiral_colors.jpg'',
     ''/photos/dilbert'',
     ''/photos/olympic'',
     ''/photos/orcas'',
     ''/photos/kitties'',
     ''/photos/PICTURES'',
     ''/photos/kubernetes.svg'',
     ''/photos/Holm ink monsters'',
     ''/photos/Universal 2018'',
     ''/photos/Max Encompass 2013'',
     ''/photos/Max Innotab photos 2015'',
     ''/photos/Max Encompass 2014'',
     ''/photos/rosen'',
     ''upload/upload/d8fbf34b-0e56-43dd-87b3-b7774f6b3f3b'',
     ''/photos/gopro'',
     ''/photos/disk1 photos'',
     ''/photos/GooglePhotos'',
     ''/photos/rescued_from_aperture'',
     ''/photos/downloaded photo zips'',
     ''/photos/from iphone'',
     ''/photos/PhotoStream'',
     ''/photos/icloud'',
     ''/photos/photos 2017-08-31'',
     ''/photos/fuck you apple'',
     ''/photos/icloud backup'',
     ''/photos/iphone_photos_20180103 PARTIAL you suck windows'',
     ''/photos/iphone_photos_partial_backup_20180103'',
     ''/dropbox/Camera Uploads'',
     ''/photos/backup'']"

text \<open>A request \<^verbatim>\<open>self.api.updateAssets(ids, visibility=v)\<close>. The key
  \<^verbatim>\<open>visibility\<close> is one of \<^verbatim>\<open>update_allowed_keys\<close>, so the call does not raise.\<close>

datatype call = UpdateAssets "string list" string

text \<open>
  \<^verbatim>\<open>
  blessed_prefix = None
  for prefix in self.path_prefix_priority_list:
      if any(self.pfx(ass["originalPath"]) == prefix for ass in dup_set):
          blessed_prefix = prefix
          break
  \<close>
\<close>

definition find_blessed :: "string list \<Rightarrow> asset list \<Rightarrow> string option" where
  "find_blessed plist dup_set =
     find (\<lambda>prefix. list_ex (\<lambda>ass. pfx (originalPath ass) = prefix) dup_set) plist"

definition blessed_copies_of :: "string \<Rightarrow> asset list \<Rightarrow> asset list" where
  "blessed_copies_of blessed_prefix dup_set =
     filter (\<lambda>ass. pfx (originalPath ass) = blessed_prefix) dup_set"

text \<open>The first request of the loop body: the visible copies outside the blessed prefix.\<close>

definition phase_a :: "string \<Rightarrow> asset list \<Rightarrow> call list" where
  "phase_a blessed_prefix dup_set =
     (let to_archive = map asset_id
            (filter (\<lambda>ass. is_timeline ass \<and> pfx (originalPath ass) \<noteq> blessed_prefix) dup_set)
      in if to_archive \<noteq> [] then [UpdateAssets to_archive ''archive''] else [])"

text \<open>The requests made for a keeper:
  \<^verbatim>\<open>to_archive = [ass["id"] for ass in dup_set if ass != keeper]\<close>, and both requests
  under \<^verbatim>\<open>if to_archive:\<close>.\<close>

definition phase_b_calls :: "asset \<Rightarrow> asset list \<Rightarrow> call list" where
  "phase_b_calls keeper dup_set =
     (let to_archive = map asset_id (filter (\<lambda>ass. ass \<noteq> keeper) dup_set)
      in if to_archive \<noteq> []
         then [UpdateAssets to_archive ''archive'', UpdateAssets [asset_id keeper] ''timeline'']
         else [])"

text \<open>The rest of the loop body. An exception of \<^verbatim>\<open>best_copy\<close> would leave the loop:
  the second component is the exception, if any.\<close>

definition phase_b :: "string \<Rightarrow> asset list \<Rightarrow> call list \<times> py_error option" where
  "phase_b blessed_prefix dup_set =
     (let blessed_copies = blessed_copies_of blessed_prefix dup_set
      in if length blessed_copies > 1
         then (case best_copy blessed_copies of
                 Inl e \<Rightarrow> ([], Some e)
               | Inr keeper \<Rightarrow> (phase_b_calls keeper dup_set, None))
         else ([], None))"

text \<open>One iteration of \<^verbatim>\<open>for dup_set in dups\<close>; \<^verbatim>\<open>if not blessed_prefix: continue\<close>
  skips on \<^verbatim>\<open>None\<close> and on the empty string.\<close>

definition dedup_set :: "string list \<Rightarrow> asset list \<Rightarrow> call list \<times> py_error option" where
  "dedup_set plist dup_set =
     (case find_blessed plist dup_set of
        None \<Rightarrow> ([], None)
      | Some blessed_prefix \<Rightarrow>
          if blessed_prefix = [] then ([], None)
          else (case phase_b blessed_prefix dup_set of
                  (cs, r) \<Rightarrow> (phase_a blessed_prefix dup_set @ cs, r)))"

text \<open>The loop over the groups. The result is the requests made, in order, and how the
  run ended: \<open>Inr ()\<close> when \<^verbatim>\<open>dedup\<close> returns (it has no \<^verbatim>\<open>return\<close> statement, so it
  returns \<^verbatim>\<open>None\<close>), \<open>Inl e\<close> when an exception ended it.\<close>

fun dedup_loop :: "string list \<Rightarrow> asset list list \<Rightarrow> call list \<times> (py_error + unit)" where
  "dedup_loop plist [] = ([], Inr ())"
| "dedup_loop plist (dup_set # rest) =
     (case dedup_set plist dup_set of
        (cs, Some e) \<Rightarrow> (cs, Inl e)
      | (cs, None) \<Rightarrow> (case dedup_loop plist rest of (cs', r) \<Rightarrow> (cs @ cs', r)))"

text \<open>\<^verbatim>\<open>dups = [dup["assets"] for dup in self.api.dups()]\<close>, on the value of
  \<^verbatim>\<open>self.api.dups()\<close>.\<close>

definition dedup :: "string list \<Rightarrow> dup_set list \<Rightarrow> call list \<times> (py_error + unit)" where
  "dedup plist dups = dedup_loop plist (map assets dups)"

text \<open>
  The catalog service is not part of the repository. Its \<^verbatim>\<open>PUT /assets\<close> with a body
  \<^verbatim>\<open>{"ids": ids, "visibility": v}\<close> is taken to set the visibility of the assets
  named by \<open>ids\<close> and to change nothing else; the requests of a run take effect in order.
\<close>

definition update_asset :: "call \<Rightarrow> asset \<Rightarrow> asset" where
  "update_asset c a =
     (case c of UpdateAssets ids v \<Rightarrow> if asset_id a \<in> set ids then a\<lparr>visibility := v\<rparr> else a)"

definition server_apply :: "call list \<Rightarrow> asset list \<Rightarrow> asset list" where
  "server_apply cs dup_set = map (\<lambda>a. fold update_asset cs a) dup_set"

definition server_apply_dups :: "call list \<Rightarrow> dup_set list \<Rightarrow> dup_set list" where
  "server_apply_dups cs dups = map (\<lambda>d. d\<lparr>assets := server_apply cs (assets d)\<rparr>) dups"

section \<open>The presence classifier: \<^verbatim>\<open>find_assets_not_in_library\<close>\<close>

text \<open>What the catalog service answers: \<^verbatim>\<open>GET /libraries\<close>, the metadata search by
  library and by device (all pages), and \<^verbatim>\<open>GET /duplicates\<close>.\<close>

record catalog =
  cat_libraries :: "library list"
  cat_library_assets :: "string \<Rightarrow> asset list"
  cat_device_assets :: "string \<Rightarrow> asset list"
  cat_duplicates :: "dup_set list"

datatype request = GetLibraries | SearchLibrary string | SearchDevice string | GetDuplicates

text \<open>The two caches of \<^verbatim>\<open>ImmichApi\<close>; the dictionary keeps its insertion order.\<close>

record api =
  dup_cache :: "dup_set list"
  dups_by_duplicateId :: "(string \<times> dup_set) list"

definition upload_device_id :: string where
  "upload_device_id = ''63ae08d41c982c437c6967d4b885fad35668ad555e810dad676807339af70a7a''"

text \<open>\<^verbatim>\<open>dict(pairs)\<close>: a later pair with a key already present replaces the value in place.\<close>

definition py_dict :: "('k \<times> 'v) list \<Rightarrow> ('k \<times> 'v) list" where
  "py_dict ps = fold (\<lambda>p al. AList.update (fst p) (snd p) al) ps []"

text \<open>The head of \<^verbatim>\<open>ImmichApi.dups\<close>: the duplicates are fetched while the cache is empty.\<close>

definition load_dups :: "catalog \<Rightarrow> api \<Rightarrow> api \<times> request list" where
  "load_dups cat st =
     (if dup_cache st = []
      then (\<lparr>dup_cache = cat_duplicates cat,
             dups_by_duplicateId = py_dict (map (\<lambda>d. (dup_duplicateId d, d)) (cat_duplicates cat))\<rparr>,
            [GetDuplicates])
      else (st, []))"

text \<open>\<^verbatim>\<open>dups(asset)\<close> for an asset: the other members of its duplicate set.\<close>

definition dups_of :: "catalog \<Rightarrow> api \<Rightarrow> asset \<Rightarrow> asset list \<times> api \<times> request list" where
  "dups_of cat st asset =
     (case load_dups cat st of (st', rq) \<Rightarrow>
        ((case duplicateId asset of
            None \<Rightarrow> []
          | Some dupid \<Rightarrow>
              (case map_of (dups_by_duplicateId st') dupid of
                 None \<Rightarrow> []
               | Some ds \<Rightarrow> filter (\<lambda>dup_asset. dup_asset \<noteq> asset) (assets ds))),
         st', rq))"

definition get_all_libraries :: "catalog \<Rightarrow> (string \<times> library) list \<times> request list" where
  "get_all_libraries cat =
     (AList.update upload_device_id \<lparr>lib_id = upload_device_id, lib_name = ''upload''\<rparr>
        (py_dict (map (\<lambda>l. (lib_id l, l)) (cat_libraries cat))),
      [GetLibraries])"

definition get_library_assets :: "catalog \<Rightarrow> string \<Rightarrow> asset list \<times> request list" where
  "get_library_assets cat lid =
     (if lid = upload_device_id
      then (cat_device_assets cat upload_device_id, [SearchDevice upload_device_id])
      else (cat_library_assets cat lid, [SearchLibrary lid]))"

text \<open>The inner loop, \<^verbatim>\<open>for asset in self.get_library_assets(libraryId)\<close>, on the state
  (caches, requests made so far, \<^verbatim>\<open>assets_not_in_library\<close>). The test of the
  \<^verbatim>\<open>elif\<close> reads the loop variable \<^verbatim>\<open>libraryId\<close>.\<close>

fun not_in_library_assets ::
  "catalog \<Rightarrow> string \<Rightarrow> asset list \<Rightarrow> api \<times> request list \<times> asset list
    \<Rightarrow> api \<times> request list \<times> asset list" where
  "not_in_library_assets cat lid [] s = s"
| "not_in_library_assets cat lid (asset # rest) s =
     (case s of (st, rq, acc) \<Rightarrow>
        if duplicateId asset = None
        then not_in_library_assets cat lid rest (st, rq, acc @ [asset])
        else (case dups_of cat st asset of (sibs, st', rq') \<Rightarrow>
                if Some lid \<notin> set (map libraryId sibs)
                then not_in_library_assets cat lid rest (st', rq @ rq', acc @ [asset])
                else not_in_library_assets cat lid rest (st', rq @ rq', acc)))"

text \<open>The outer loop, \<^verbatim>\<open>for libraryId, library in self.get_all_libraries().items()\<close>.\<close>

fun not_in_library_libraries ::
  "catalog \<Rightarrow> string option \<Rightarrow> (string \<times> library) list \<Rightarrow> api \<times> request list \<times> asset list
    \<Rightarrow> api \<times> request list \<times> asset list" where
  "not_in_library_libraries cat target [] s = s"
| "not_in_library_libraries cat target (l # ls) s =
     (if Some (fst l) = target then not_in_library_libraries cat target ls s
      else (case s of (st, rq, acc) \<Rightarrow>
              (case get_library_assets cat (fst l) of (as, rq') \<Rightarrow>
                 not_in_library_libraries cat target ls
                   (not_in_library_assets cat (fst l) as (st, rq @ rq', acc)))))"

text \<open>\<^verbatim>\<open>not targetLibraryId\<close>: the identifier is \<^verbatim>\<open>None\<close> or the empty string.\<close>

definition falsy :: "string option \<Rightarrow> bool" where
  "falsy t = (case t of None \<Rightarrow> True | Some s \<Rightarrow> s = [])"

text \<open>The result is the list returned, the caches afterwards and the requests made.\<close>

definition find_assets_not_in_library ::
  "catalog \<Rightarrow> api \<Rightarrow> string option \<Rightarrow> asset list \<times> api \<times> request list" where
  "find_assets_not_in_library cat st targetLibraryId =
     (if falsy targetLibraryId then ([], st, [])
      else (case get_all_libraries cat of (libraries, rq1) \<Rightarrow>
             (case get_all_libraries cat of (libs, rq2) \<Rightarrow>
                (case not_in_library_libraries cat targetLibraryId libs (st, rq1 @ rq2, []) of
                   (st', rq, acc) \<Rightarrow> (acc, st', rq)))))"

section \<open>\<^verbatim>\<open>dedup\<close> on an object with its caches\<close>

text \<open>\<^verbatim>\<open>self.api.dups()\<close> without an asset: the cached answer, fetched while the cache
  is empty.\<close>

definition dups_all :: "catalog \<Rightarrow> api \<Rightarrow> dup_set list \<times> api \<times> request list" where
  "dups_all cat st = (case load_dups cat st of (st', rq) \<Rightarrow> (dup_cache st', st', rq))"

text \<open>The call of \<^verbatim>\<open>dedup\<close> on an object whose \<^verbatim>\<open>ImmichApi\<close> has the caches
  \<open>st\<close>, against the catalog \<open>cat\<close>: what the run does, the caches afterwards and the
  requests made to read.\<close>

definition dedup_call ::
  "string list \<Rightarrow> catalog \<Rightarrow> api \<Rightarrow> (call list \<times> (py_error + unit)) \<times> api \<times> request list" where
  "dedup_call plist cat st =
     (case dups_all cat st of (dups, st', rq) \<Rightarrow> (dedup plist dups, st', rq))"

text \<open>The caches of a new \<^verbatim>\<open>ImmichApi\<close>.\<close>

definition fresh_api :: api where
  "fresh_api = \<lparr>dup_cache = [], dups_by_duplicateId = []\<rparr>"

text \<open>The catalog after the requests \<open>cs\<close> have taken effect on the assets of its
  duplicate sets.\<close>

definition catalog_after :: "call list \<Rightarrow> catalog \<Rightarrow> catalog" where
  "catalog_after cs cat = cat\<lparr>cat_duplicates := server_apply_dups cs (cat_duplicates cat)\<rparr>"

section \<open>Notions of the specification and of the proofs\<close>

text \<open>The quality of the data model: the byte size, the pixel width and the pixel height
  of an asset, each 0 when unknown (\<^verbatim>\<open>exifInfo\<close> or the key absent, or
  \<^verbatim>\<open>null\<close>). The byte size is the one the service sends, under
  \<^verbatim>\<open>fileSizeInByte\<close>.\<close>

definition spec_value :: "asset \<Rightarrow> string \<Rightarrow> int" where
  "spec_value a key =
     (case exifInfo a of
        Exif d \<Rightarrow> (case d key of Some (JInt n) \<Rightarrow> n | _ \<Rightarrow> 0)
      | _ \<Rightarrow> 0)"

definition spec_byte_size :: "asset \<Rightarrow> int" where
  "spec_byte_size a = spec_value a ''fileSizeInByte''"

definition spec_area :: "asset \<Rightarrow> int" where
  "spec_area a = spec_value a ''exifImageWidth'' * spec_value a ''exifImageHeight''"

text \<open>The score the specification gives a candidate among \<open>cands\<close>: 2 for the largest
  byte size, 8 for the largest pixel area, added.\<close>

definition spec_score :: "asset list \<Rightarrow> asset \<Rightarrow> int" where
  "spec_score cands a =
     (if spec_byte_size a = Max (spec_byte_size ` set cands) then 2 else 0)
   + (if spec_area a = Max (spec_area ` set cands) then 8 else 0)"

text \<open>An asset the first loop of \<^verbatim>\<open>best_copy\<close> gets through without an exception,
  and the two numbers it reads from it.\<close>

definition exif_ok :: "asset \<Rightarrow> bool" where
  "exif_ok a = (\<not> isl (asset_file_size a) \<and> \<not> isl (asset_dims a))"

definition size_val :: "asset \<Rightarrow> int" where
  "size_val a = projr (asset_file_size a)"

definition dims_val :: "asset \<Rightarrow> int" where
  "dims_val a = projr (asset_dims a)"

text \<open>The components of a path are its non-empty fields; the prefix of the specification
  keeps the first two, with the leading separator of the path if it has one.\<close>

definition path_components :: "string \<Rightarrow> string list" where
  "path_components path = filter (\<lambda>w. w \<noteq> []) (split CHR ''/'' path)"

definition two_component_prefix :: "string \<Rightarrow> string" where
  "two_component_prefix path =
     (if take 1 path = ''/'' then ''/'' else []) @ join ''/'' (take 2 (path_components path))"

text \<open>The indices tracked for one quantity alone; \<open>scan\<close> runs two of these side by side.\<close>

fun track_all :: "int list \<Rightarrow> nat \<Rightarrow> int \<times> nat list \<Rightarrow> int \<times> nat list" where
  "track_all [] idx s = s"
| "track_all (v # vs) idx s = track_all vs (Suc idx) (track v idx s)"

text \<open>An asset with its path replaced by the path \<open>new\<close> gives for it.\<close>

definition with_path :: "(asset \<Rightarrow> string) \<Rightarrow> asset \<Rightarrow> asset" where
  "with_path new a = a\<lparr>originalPath := new a\<rparr>"

text \<open>The siblings of an asset as the specification names them, and its test for an
  asset that is not in the target library.\<close>

definition siblings_spec :: "dup_set list \<Rightarrow> asset \<Rightarrow> asset list" where
  "siblings_spec dups a =
     concat (map (\<lambda>d. if Some (dup_duplicateId d) = duplicateId a
                        then filter (\<lambda>b. b \<noteq> a) (assets d) else []) dups)"

definition qualifies_spec :: "dup_set list \<Rightarrow> string \<Rightarrow> asset \<Rightarrow> bool" where
  "qualifies_spec dups target a =
     (duplicateId a = None \<or> Some target \<notin> set (map libraryId (siblings_spec dups a)))"

text \<open>The identifiers a request names.\<close>

definition call_ids :: "call \<Rightarrow> string set" where
  "call_ids c = (case c of UpdateAssets ids v \<Rightarrow> set ids)"

text \<open>The members of a group as the catalog holds them after the requests of the run
  for that group.\<close>

definition after_run :: "string list \<Rightarrow> asset list \<Rightarrow> asset list" where
  "after_run plist g = server_apply (fst (dedup_set plist g)) g"

text \<open>A member after a run that chose \<open>keeper\<close>, and a member after the first
  request alone.\<close>

definition converged :: "asset \<Rightarrow> asset \<Rightarrow> asset" where
  "converged keeper a = a\<lparr>visibility := (if a = keeper then ''timeline'' else ''archive'')\<rparr>"

definition demoted :: "string \<Rightarrow> asset \<Rightarrow> asset" where
  "demoted bp a =
     (if is_timeline a \<and> pfx (originalPath a) \<noteq> bp then a\<lparr>visibility := ''archive''\<rparr> else a)"

text \<open>The requests of the second part of the loop body for a group, none when the group
  is skipped.\<close>

definition phase_b_of :: "string list \<Rightarrow> asset list \<Rightarrow> call list" where
  "phase_b_of plist g =
     (case find_blessed plist g of
        None \<Rightarrow> []
      | Some bp \<Rightarrow> if bp = [] then [] else fst (phase_b bp g))"

text \<open>The first call of \<^verbatim>\<open>dedup\<close> on a new object, the catalog once its requests
  have taken effect, and the caches the object is left with.\<close>

definition first_run ::
  "string list \<Rightarrow> catalog \<Rightarrow> (call list \<times> (py_error + unit)) \<times> api \<times> request list" where
  "first_run plist cat = dedup_call plist cat fresh_api"

definition catalog_after_first :: "string list \<Rightarrow> catalog \<Rightarrow> catalog" where
  "catalog_after_first plist cat = catalog_after (fst (fst (first_run plist cat))) cat"

definition caches_after_first :: "string list \<Rightarrow> catalog \<Rightarrow> api" where
  "caches_after_first plist cat = fst (snd (first_run plist cat))"

text \<open>The visibility the last of the requests \<open>cs\<close> that names the identifier
  \<open>i\<close> sets, if one names it.\<close>

fun last_visibility :: "call list \<Rightarrow> string \<Rightarrow> string option" where
  "last_visibility [] i = None"
| "last_visibility (UpdateAssets ids v # cs) i =
     (case last_visibility cs i of
        Some w \<Rightarrow> Some w
      | None \<Rightarrow> if i \<in> set ids then Some v else None)"

section \<open>Example data\<close>

definition photo :: "string \<Rightarrow> string \<Rightarrow> string \<Rightarrow> int \<Rightarrow> int \<Rightarrow> int \<Rightarrow> asset" where
  "photo i p v sz w h =
     \<lparr>asset_id = i, originalPath = p, libraryId = None, visibility = v,
      duplicateId = Some ''d1'',
      exifInfo = Exif [''fileSizeInByte'' \<mapsto> JInt sz, ''exifImageWidth'' \<mapsto> JInt w,
                       ''exifImageHeight'' \<mapsto> JInt h]\<rparr>"

text \<open>An asset whose pixel sizes the service does not know.\<close>

definition unmeasured :: asset where
  "unmeasured =
     \<lparr>asset_id = ''N'', originalPath = ''/photos/wedding/n.mov'', libraryId = None,
      visibility = ''timeline'', duplicateId = Some ''d1'',
      exifInfo = Exif [''fileSizeInByte'' \<mapsto> JInt 100, ''exifImageWidth'' \<mapsto> JNull,
                       ''exifImageHeight'' \<mapsto> JNull]\<rparr>"

definition null_copies :: "asset list" where
  "null_copies = [unmeasured, photo ''B'' ''/photos/wedding/b.jpg'' ''archive'' 200 20 10]"

definition sized_pair :: "asset list" where
  "sized_pair = [photo ''A'' ''/photos/wedding/a.jpg'' ''timeline'' 100 20 10,
                 photo ''B'' ''/photos/wedding/b.jpg'' ''archive'' 200 20 10]"

definition two_copies :: "asset list" where
  "two_copies = [photo ''A'' ''/photos/wedding/a.jpg'' ''archive'' 100 20 10,
                 photo ''B'' ''/photos/wedding/b.jpg'' ''timeline'' 200 20 10]"



definition lonely_blessed :: "asset list" where
  "lonely_blessed = [photo ''A'' ''/photos/wedding/a.jpg'' ''archive'' 500 10 10,
                     photo ''B'' ''/photos/misc/b.jpg'' ''timeline'' 900 10 5]"

definition wedding_set :: dup_set where
  "wedding_set = \<lparr>dup_duplicateId = ''d1'', assets = two_copies\<rparr>"

definition unlisted_set :: dup_set where
  "unlisted_set =
     \<lparr>dup_duplicateId = ''d9'',
      assets = [photo ''U'' ''/photos/nowhere/u.jpg'' ''timeline'' 500 10 10,
                photo ''V'' ''/elsewhere/v.jpg'' ''timeline'' 900 10 5]\<rparr>"

text \<open>The files of the wedding folder, moved into a folder of it.\<close>

definition moved :: "asset \<Rightarrow> string" where
  "moved a = ''/photos/wedding/moved/'' @ asset_id a"

definition upload_path :: string where
  "upload_path = ''upload/upload/d8fbf34b-0e56-43dd-87b3-b7774f6b3f3b/ab/cd/x.jpg''"

definition stored :: "string \<Rightarrow> string \<Rightarrow> string \<Rightarrow> string \<Rightarrow> asset" where
  "stored i p l d =
     \<lparr>asset_id = i, originalPath = p, libraryId = Some l, visibility = ''timeline'',
      duplicateId = Some d, exifInfo = ExifAbsent\<rparr>"

definition example_catalog :: catalog where
  "example_catalog =
     \<lparr>cat_libraries = [\<lparr>lib_id = ''lib1'', lib_name = ''photos''\<rparr>,
                       \<lparr>lib_id = ''lib2'', lib_name = ''dropbox''\<rparr>],
      cat_library_assets = (\<lambda>l.
         if l = ''lib1'' then [stored ''a1'' ''/photos/misc/a.jpg'' ''lib1'' ''d1'',
                               stored ''a3'' ''/photos/misc/c.jpg'' ''lib1'' ''d2'',
                               stored ''a4'' ''/photos/img/c.jpg'' ''lib1'' ''d2'']
         else if l = ''lib2'' then [stored ''a2'' ''/dropbox/Camera Uploads/a.jpg'' ''lib2'' ''d1'']
         else []),
      cat_device_assets = (\<lambda>d. []),
      cat_duplicates =
        [\<lparr>dup_duplicateId = ''d1'',
          assets = [stored ''a1'' ''/photos/misc/a.jpg'' ''lib1'' ''d1'',
                    stored ''a2'' ''/dropbox/Camera Uploads/a.jpg'' ''lib2'' ''d1'']\<rparr>,
         \<lparr>dup_duplicateId = ''d2'',
          assets = [stored ''a3'' ''/photos/misc/c.jpg'' ''lib1'' ''d2'',
                    stored ''a4'' ''/photos/img/c.jpg'' ''lib1'' ''d2'']\<rparr>]\<rparr>"

definition wedding_catalog :: catalog where
  "wedding_catalog =
     \<lparr>cat_libraries = [], cat_library_assets = (\<lambda>l. []), cat_device_assets = (\<lambda>d. []),
      cat_duplicates = [wedding_set]\<rparr>"

text \<open>A catalog with a group of two copies under the blessed prefix, a group with one,
  and a group with no prefix of the list.\<close>

definition single_set :: dup_set where
  "single_set =
     \<lparr>dup_duplicateId = ''d5'',
      assets = [photo ''S'' ''/photos/wedding/a.jpg'' ''timeline'' 100 20 10,
                photo ''T'' ''/photos/misc/b.jpg'' ''archive'' 100 20 10]\<rparr>"

definition mixed_catalog :: catalog where
  "mixed_catalog =
     \<lparr>cat_libraries = [], cat_library_assets = (\<lambda>l. []), cat_device_assets = (\<lambda>d. []),
      cat_duplicates = [wedding_set, single_set, unlisted_set]\<rparr>"

section \<open>Properties of the scorer\<close>

lemma length_add_score: "length (add_score c idxs sc) = length sc"
  unfolding add_score_def by (induction idxs arbitrary: sc) auto

lemma py_max_Max:
  assumes "xs \<noteq> []"
  shows "py_max xs = Inr (Max (set xs))"
proof (cases xs)
  case Nil
  with assms show ?thesis by simp
next
  case (Cons a l)
  then show ?thesis using Max.set_eq_fold [of a l] by (simp add: py_max_def)
qed

lemma max_scorers_set:
  "set (max_scorers_of as sc m) = {as ! n | n. n < length as \<and> sc ! n = m}"
  by (auto simp: max_scorers_of_def)

lemma find_enumerate_first:
  "find (\<lambda>p. snd p = m) (enumerate 0 sc) = Some p \<Longrightarrow>
     fst p < length sc \<and> sc ! fst p = m \<and> (\<forall>j<fst p. sc ! j \<noteq> m)"
  by (auto simp: find_Some_iff nth_enumerate_eq)

lemma find_enumerate_none:
  assumes "find (\<lambda>p. snd p = m) (enumerate 0 sc) = None"
  shows "m \<notin> set sc"
proof
  assume "m \<in> set sc"
  then obtain i where "i < length sc" "sc ! i = m" by (auto simp: in_set_conv_nth)
  then have "(i, m) \<in> set (enumerate 0 sc)" by (simp add: in_set_enumerate_eq)
  with assms show False by (force simp: find_None_iff)
qed

lemma find_max_scorers:
  assumes "find P (max_scorers_of as sc m) = Some ass"
  shows "\<exists>k<length as. ass = as ! k \<and> sc ! k = m \<and> P (as ! k)"
proof -
  from assms have "ass \<in> set (max_scorers_of as sc m)" and "P ass"
    by (auto simp: find_Some_iff)
  then show ?thesis by (auto simp: max_scorers_set)
qed

lemma track_all_max: "fst (track_all vs idx (m, is)) = fold max vs m"
proof (induction vs arbitrary: idx m "is")
  case Nil
  show ?case by simp
next
  case (Cons v vs)
  show ?case using Cons.IH by (auto simp: track_def max_def)
qed

lemma fold_max_ge: "m \<le> fold max vs (m::int)"
proof (induction vs arbitrary: m)
  case Nil show ?case by simp
next
  case (Cons v vs)
  have "m \<le> max v m" by simp
  also have "\<dots> \<le> fold max vs (max v m)" by (rule Cons.IH)
  finally show ?case by simp
qed

lemma track_all_idxs:
  assumes "\<forall>i\<in>set is. i < idx"
  shows "k \<in> set (snd (track_all vs idx (m, is))) \<longleftrightarrow>
           (k \<in> set is \<and> fold max vs m = m)
         \<or> (idx \<le> k \<and> k < idx + length vs \<and> vs ! (k - idx) = fold max vs m)"
  using assms
proof (induction vs arbitrary: idx m "is")
  case Nil
  then show ?case by auto
next
  case (Cons v vs)
  consider (gt) "v > m" | (eq) "v = m" | (lt) "v < m" by linarith
  then show ?case
  proof cases
    case gt
    have t: "track v idx (m, is) = (v, [idx])" using gt by (simp add: track_def)
    have ih: "k \<in> set (snd (track_all vs (Suc idx) (v, [idx]))) \<longleftrightarrow>
           (k \<in> set [idx] \<and> fold max vs v = v)
         \<or> (Suc idx \<le> k \<and> k < Suc idx + length vs \<and> vs ! (k - Suc idx) = fold max vs v)"
      by (rule Cons.IH) simp
    have mx: "max v m = v" using gt by simp
    have ge: "v \<le> fold max vs v" by (rule fold_max_ge)
    have ne: "fold max vs v \<noteq> m" using gt ge by linarith
    have nin: "k \<in> set is \<Longrightarrow> k < idx" using Cons.prems by auto
    show ?thesis
    proof (cases "k = idx")
      case True
      then show ?thesis using ih t mx ne nin by auto
    next
      case False
      then have "idx \<le> k \<Longrightarrow> (v # vs) ! (k - idx) = vs ! (k - Suc idx)"
        by (simp add: nth_Cons')
      then show ?thesis using ih t mx ne False by auto
    qed
  next
    case eq
    have t: "track v idx (m, is) = (m, is @ [idx])" using eq by (simp add: track_def)
    have ih: "k \<in> set (snd (track_all vs (Suc idx) (m, is @ [idx]))) \<longleftrightarrow>
           (k \<in> set (is @ [idx]) \<and> fold max vs m = m)
         \<or> (Suc idx \<le> k \<and> k < Suc idx + length vs \<and> vs ! (k - Suc idx) = fold max vs m)"
      by (rule Cons.IH) (use Cons.prems in auto)
    have mx: "max v m = m" using eq by simp
    have nin: "k \<in> set is \<Longrightarrow> k < idx" using Cons.prems by auto
    show ?thesis
    proof (cases "k = idx")
      case True
      then show ?thesis using ih t mx eq nin by auto
    next
      case False
      then have "idx \<le> k \<Longrightarrow> (v # vs) ! (k - idx) = vs ! (k - Suc idx)"
        by (simp add: nth_Cons')
      then show ?thesis using ih t mx False nin by auto
    qed
  next
    case lt
    have t: "track v idx (m, is) = (m, is)" using lt by (simp add: track_def)
    have ih: "k \<in> set (snd (track_all vs (Suc idx) (m, is))) \<longleftrightarrow>
           (k \<in> set is \<and> fold max vs m = m)
         \<or> (Suc idx \<le> k \<and> k < Suc idx + length vs \<and> vs ! (k - Suc idx) = fold max vs m)"
      by (rule Cons.IH) (use Cons.prems in auto)
    have mx: "max v m = m" using lt by simp
    have ge: "m \<le> fold max vs m" by (rule fold_max_ge)
    have ne: "v \<noteq> fold max vs m" using lt ge by linarith
    have nin: "k \<in> set is \<Longrightarrow> k < idx" using Cons.prems by auto
    show ?thesis
    proof (cases "k = idx")
      case True
      then show ?thesis using ih t mx ne nin by auto
    next
      case False
      then have "idx \<le> k \<Longrightarrow> (v # vs) ! (k - idx) = vs ! (k - Suc idx)"
        by (simp add: nth_Cons')
      then show ?thesis using ih t mx False nin by auto
    qed
  qed
qed

lemma track_all_distinct:
  assumes "\<forall>i\<in>set is. i < idx" and "distinct is"
  shows "distinct (snd (track_all vs idx (m, is)))"
  using assms
proof (induction vs arbitrary: idx m "is")
  case Nil
  then show ?case by simp
next
  case (Cons v vs)
  obtain m' is' where t: "track v idx (m, is) = (m', is')" by (cases "track v idx (m, is)")
  have "(\<forall>i\<in>set is'. i < Suc idx) \<and> distinct is'"
    using t Cons.prems by (auto simp: track_def less_SucI split: if_splits)
  then have "distinct (snd (track_all vs (Suc idx) (m', is')))"
    using Cons.IH by blast
  with t show ?case by simp
qed

lemma add_score_nth:
  assumes "distinct idxs" and "n < length sc"
  shows "add_score c idxs sc ! n = sc ! n + (if n \<in> set idxs then c else 0)"
  using assms unfolding add_score_def
proof (induction idxs arbitrary: sc)
  case Nil
  then show ?case by simp
next
  case (Cons i idxs)
  have "fold (\<lambda>idx sc. sc[idx := sc ! idx + c]) idxs (sc[i := sc ! i + c]) ! n =
        (sc[i := sc ! i + c]) ! n + (if n \<in> set idxs then c else 0)"
    using Cons.prems by (intro Cons.IH) auto
  moreover have "n \<in> set idxs \<Longrightarrow> n \<noteq> i" using Cons.prems by auto
  ultimately show ?case using Cons.prems by (auto simp: nth_list_update)
qed

lemma exif_ok_vals:
  assumes "exif_ok a"
  shows "asset_file_size a = Inr (size_val a)" and "asset_dims a = Inr (dims_val a)"
  using assms by (simp_all add: exif_ok_def size_val_def dims_val_def)

lemma scan_ok:
  assumes "list_all exif_ok as"
  shows "scan as idx st =
     Inr (track_all (map size_val as) idx (fst st), track_all (map dims_val as) idx (snd st))"
  using assms
proof (induction as arbitrary: idx st)
  case Nil
  show ?case by simp
next
  case (Cons a as)
  then have a: "exif_ok a" and r: "list_all exif_ok as" by simp_all
  show ?case by (simp add: exif_ok_vals [OF a] Cons.IH [OF r])
qed

lemma scan_bad:
  assumes "\<not> list_all exif_ok as"
  shows "isl (scan as idx st)"
  using assms
proof (induction as arbitrary: idx st)
  case Nil
  then show ?case by simp
next
  case (Cons a as)
  show ?case
  proof (cases "exif_ok a")
    case True
    with Cons.prems have "\<not> list_all exif_ok as" by simp
    then have "isl (scan as (Suc idx)
        (track (size_val a) idx (fst st), track (dims_val a) idx (snd st)))"
      by (rule Cons.IH)
    then show ?thesis by (simp add: exif_ok_vals [OF True])
  next
    case False
    then show ?thesis
      by (cases "asset_file_size a"; cases "asset_dims a") (simp_all add: exif_ok_def)
  qed
qed

lemma scores_of_ok:
  assumes "list_all exif_ok as"
  shows "scores_of as =
     Inr (add_score 8 (snd (track_all (map dims_val as) 0 (0, [])))
            (add_score 2 (snd (track_all (map size_val as) 0 (0, [])))
               (replicate (length as) 0)))"
  by (simp add: scores_of_def scan_ok [OF assms])

lemma scores_of_bad:
  assumes "\<not> list_all exif_ok as"
  shows "isl (scores_of as)"
proof -
  have "isl (scan as 0 ((0, []), (0, [])))" by (rule scan_bad [OF assms])
  then obtain e where "scan as 0 ((0, []), (0, [])) = Inl e"
    by (cases "scan as 0 ((0, []), (0, []))") simp_all
  then show ?thesis by (simp add: scores_of_def)
qed

lemma scores_of_Inr:
  assumes "scores_of as = Inr sc"
  shows "list_all exif_ok as" and "length sc = length as"
proof -
  show ok: "list_all exif_ok as"
  proof (rule ccontr)
    assume "\<not> list_all exif_ok as"
    from scores_of_bad [OF this] assms show False by simp
  qed
  from assms show "length sc = length as"
    unfolding scores_of_ok [OF ok] by (auto simp: length_add_score)
qed

lemma best_copy_error:
  assumes "scores_of as = Inl e"
  shows "best_copy as = Inl e"
  using assms by (simp add: best_copy_def)

lemma best_copy_choice:
  assumes "as \<noteq> []" and "scores_of as = Inr sc"
  shows "\<exists>k<length as. best_copy as = Inr (as ! k)
           \<and> sc ! k = Max (set sc)
           \<and> (if \<exists>n<length as. sc ! n = Max (set sc) \<and> is_timeline (as ! n)
               then is_timeline (as ! k)
               else \<forall>j<k. sc ! j \<noteq> Max (set sc))"
proof -
  let ?m = "Max (set sc)"
  have len: "length sc = length as" by (rule scores_of_Inr(2) [OF assms(2)])
  have ne: "sc \<noteq> []" using assms(1) len by auto
  have pm: "py_max sc = Inr ?m" by (rule py_max_Max [OF ne])
  let ?ms = "max_scorers_of as sc ?m"
  have ex_iff: "list_ex is_timeline ?ms \<longleftrightarrow> (\<exists>n<length as. sc ! n = ?m \<and> is_timeline (as ! n))"
    by (auto simp: list_ex_iff max_scorers_set)
  show ?thesis
  proof (cases "list_ex is_timeline ?ms")
    case True
    then obtain ass where f: "find is_timeline ?ms = Some ass"
      by (cases "find is_timeline ?ms") (auto simp: find_None_iff list_ex_iff)
    from find_max_scorers [OF f] obtain k where
      k: "k < length as" "ass = as ! k" "sc ! k = ?m" "is_timeline (as ! k)" by blast
    have "best_copy as = Inr (as ! k)"
      using True f pm k(2) assms(2) by (simp add: best_copy_def Let_def)
    with k True ex_iff show ?thesis by auto
  next
    case False
    have "?m \<in> set sc" using ne by simp
    then obtain p where f: "find (\<lambda>p. snd p = ?m) (enumerate 0 sc) = Some p"
      using find_enumerate_none [of ?m sc] by (cases "find (\<lambda>p. snd p = ?m) (enumerate 0 sc)") auto
    from find_enumerate_first [OF f] have
      k: "fst p < length as" "sc ! fst p = ?m" "\<forall>j<fst p. sc ! j \<noteq> ?m" using len by auto
    have "best_copy as = Inr (as ! fst p)"
      using False f pm assms(2) by (simp add: best_copy_def Let_def)
    with k False ex_iff show ?thesis by auto
  qed
qed

lemma best_copy_in:
  assumes "as \<noteq> []" and "list_all exif_ok as"
  shows "\<exists>r\<in>set as. best_copy as = Inr r"
proof -
  from best_copy_choice [OF assms(1) scores_of_ok [OF assms(2)]] obtain k where
    "k < length as" and "best_copy as = Inr (as ! k)" by blast
  then show ?thesis using nth_mem [of k as] by blast
qed

text \<open>What the first two loops compute from the numbers read: 2 for an index whose size
  is the largest of the sizes and of 0, 8 for an index whose area is the largest of the
  areas and of 0.\<close>

lemma scores_of_nth:
  assumes "scores_of as = Inr sc" and "n < length as"
  shows "sc ! n =
     (if size_val (as ! n) = fold max (map size_val as) 0 then 2 else 0)
   + (if dims_val (as ! n) = fold max (map dims_val as) 0 then 8 else 0)"
proof -
  let ?si = "snd (track_all (map size_val as) 0 (0, []))"
  let ?di = "snd (track_all (map dims_val as) 0 (0, []))"
  have ok: "list_all exif_ok as" by (rule scores_of_Inr(1) [OF assms(1)])
  have sc: "sc = add_score 8 ?di (add_score 2 ?si (replicate (length as) 0))"
    using assms(1) unfolding scores_of_ok [OF ok] by simp
  have ds: "distinct ?si" and dd: "distinct ?di"
    by (rule track_all_distinct; simp)+
  have ms: "n \<in> set ?si \<longleftrightarrow> size_val (as ! n) = fold max (map size_val as) 0"
    using track_all_idxs [of "[]" 0 n "map size_val as" 0] assms(2) by simp
  have md: "n \<in> set ?di \<longleftrightarrow> dims_val (as ! n) = fold max (map dims_val as) 0"
    using track_all_idxs [of "[]" 0 n "map dims_val as" 0] assms(2) by simp
  have "sc ! n =
      add_score 2 ?si (replicate (length as) 0) ! n + (if n \<in> set ?di then 8 else 0)"
    unfolding sc by (rule add_score_nth [OF dd]) (simp add: length_add_score assms(2))
  also have "add_score 2 ?si (replicate (length as) 0) ! n =
      replicate (length as) 0 ! n + (if n \<in> set ?si then 2 else 0)"
    by (rule add_score_nth [OF ds]) (simp add: assms(2))
  finally show ?thesis using assms(2) ms md by simp
qed

text \<open>The indices the first loop collects are indices of the list, so no
  \<^verbatim>\<open>scores[idx] += c\<close> is out of range.\<close>

lemma scan_indices_in_range:
  assumes "scan as 0 ((0, []), (0, [])) = Inr st" and "k \<in> set (snd (fst st)) \<union> set (snd (snd st))"
  shows "k < length as"
proof -
  have ok: "list_all exif_ok as"
  proof (rule ccontr)
    assume "\<not> list_all exif_ok as"
    from scan_bad [OF this, of 0 "((0, []), (0, []))"] assms(1) show False by simp
  qed
  from assms(1) have "st = (track_all (map size_val as) 0 (0, []), track_all (map dims_val as) 0 (0, []))"
    unfolding scan_ok [OF ok] by simp
  with assms(2) have "k \<in> set (snd (track_all (map size_val as) 0 (0, [])))
           \<or> k \<in> set (snd (track_all (map dims_val as) 0 (0, [])))" by simp
  then show "k < length as"
    using track_all_idxs [of "[]" 0 k "map size_val as" 0]
      track_all_idxs [of "[]" 0 k "map dims_val as" 0] by auto
qed

subsection \<open>The example assets\<close>

lemma photo_sel:
  "asset_file_size (photo i p v sz w h) = Inr 0"
  "asset_width (photo i p v sz w h) = Inr w"
  "asset_height (photo i p v sz w h) = Inr h"
  "asset_dims (photo i p v sz w h) = Inr (w * h)"
  "is_timeline (photo i p v sz w h) = (v = ''timeline'')"
  "asset_id (photo i p v sz w h) = i"
  "originalPath (photo i p v sz w h) = p"
  "visibility (photo i p v sz w h) = v"
  by (simp_all add: photo_def asset_file_size_def asset_width_def asset_height_def
      asset_dims_def is_timeline_def exif_get_def py_int_def)

lemma photo_ok: "exif_ok (photo i p v sz w h)"
  by (simp add: exif_ok_def photo_sel)

lemma photo_spec:
  "spec_byte_size (photo i p v sz w h) = sz"
  "spec_area (photo i p v sz w h) = w * h"
  by (simp_all add: photo_def spec_byte_size_def spec_area_def spec_value_def)


lemma scores_of_sized: "scores_of sized_pair = Inr [10, 10]"
  by (simp add: sized_pair_def scores_of_def add_score_def track_def photo_sel)

lemma best_copy_sized:
  "best_copy sized_pair = Inr (photo ''A'' ''/photos/wedding/a.jpg'' ''timeline'' 100 20 10)"
  unfolding best_copy_def scores_of_sized
  by (simp add: py_max_def max_scorers_of_def sized_pair_def photo_sel)

lemma spec_scores_sized: "map (spec_score sized_pair) sized_pair = [8, 10]"
  by (simp add: sized_pair_def spec_score_def photo_spec)

subsection \<open>The choice among the largest scores\<close>



subsection \<open>When best_copy returns\<close>

text \<open>
  best_copy returns exactly on the non-empty lists all of whose members have numbers where
  the scorer reads, and then it returns a member.
\<close>

theorem best_copy_returns_iff:
  "(\<exists>r. best_copy as = Inr r) \<longleftrightarrow> as \<noteq> [] \<and> list_all exif_ok as"
proof
  assume "\<exists>r. best_copy as = Inr r"
  then obtain r where r: "best_copy as = Inr r" by blast
  have ok: "list_all exif_ok as"
  proof (rule ccontr)
    assume "\<not> list_all exif_ok as"
    from scores_of_bad [OF this] obtain e where "scores_of as = Inl e"
      by (cases "scores_of as") auto
    from best_copy_error [OF this] r show False by simp
  qed
  have "as \<noteq> []"
  proof
    assume "as = []"
    then have "best_copy as = Inl ValueError"
      by (simp add: best_copy_def scores_of_def add_score_def py_max_def)
    with r show False by simp
  qed
  with ok show "as \<noteq> [] \<and> list_all exif_ok as" by simp
next
  assume "as \<noteq> [] \<and> list_all exif_ok as"
  then show "\<exists>r. best_copy as = Inr r" using best_copy_in by blast
qed

theorem best_copy_returns_member:
  assumes "best_copy as = Inr r"
  shows "r \<in> set as"
proof -
  from assms have "as \<noteq> []" and "list_all exif_ok as"
    using best_copy_returns_iff [of as] by blast+
  from best_copy_in [OF this] assms show ?thesis by auto
qed

subsection \<open>The scorer reads the quality and the visibility only\<close>

lemma exif_reads_eq:
  assumes "exifInfo b = exifInfo a"
  shows "asset_file_size b = asset_file_size a" and "asset_dims b = asset_dims a"
proof -
  have g: "\<And>key. exif_get b key = exif_get a key" by (simp add: exif_get_def assms)
  show "asset_file_size b = asset_file_size a" unfolding asset_file_size_def g by (rule refl)
  have w: "asset_width b = asset_width a" unfolding asset_width_def g by (rule refl)
  have h: "asset_height b = asset_height a" unfolding asset_height_def g by (rule refl)
  show "asset_dims b = asset_dims a" unfolding asset_dims_def w h by (rule refl)
qed

lemma exif_ok_eq:
  assumes "exifInfo b = exifInfo a"
  shows "exif_ok b = exif_ok a"
  unfolding exif_ok_def exif_reads_eq [OF assms] by (rule refl)

lemma scan_map:
  assumes "\<And>a. exifInfo (f a) = exifInfo a"
  shows "scan (map f as) idx st = scan as idx st"
proof (induction as arbitrary: idx st)
  case Nil
  show ?case by simp
next
  case (Cons a as)
  have e: "exifInfo (f a) = exifInfo a" by (rule assms)
  show ?case
    unfolding list.map scan.simps exif_reads_eq [OF e] Cons.IH by (rule refl)
qed

lemma scores_of_map:
  assumes "\<And>a. exifInfo (f a) = exifInfo a"
  shows "scores_of (map f as) = scores_of as"
  unfolding scores_of_def scan_map [OF assms] length_map by (rule refl)

lemma find_over_map: "find P (map f xs) = map_option f (find (\<lambda>x. P (f x)) xs)"
  by (induction xs) simp_all

lemma max_scorers_map:
  "max_scorers_of (map f as) sc m = map f (max_scorers_of as sc m)"
  by (simp add: max_scorers_of_def)

lemma best_copy_map:
  assumes "\<And>a. exifInfo (f a) = exifInfo a" and "\<And>a. visibility (f a) = visibility a"
  shows "best_copy (map f as) = (case best_copy as of Inl e \<Rightarrow> Inl e | Inr r \<Rightarrow> Inr (f r))"
proof (cases "scores_of as")
  case (Inl e)
  then have "scores_of (map f as) = Inl e" by (simp add: scores_of_map [OF assms(1)])
  with Inl show ?thesis by (simp add: best_copy_error)
next
  case (Inr sc)
  then have sc': "scores_of (map f as) = Inr sc" by (simp add: scores_of_map [OF assms(1)])
  have len: "length sc = length as" by (rule scores_of_Inr(2) [OF Inr])
  show ?thesis
  proof (cases "as = []")
    case True
    with len have "sc = []" by simp
    with Inr sc' True show ?thesis by (simp add: best_copy_def py_max_def)
  next
    case False
    with len have ne: "sc \<noteq> []" by auto
    let ?m = "Max (set sc)"
    let ?ms = "max_scorers_of as sc ?m"
    have pm: "py_max sc = Inr ?m" by (rule py_max_Max [OF ne])
    have tl: "\<And>a. is_timeline (f a) = is_timeline a" by (simp add: is_timeline_def assms(2))
    have ex: "list_ex is_timeline (map f ?ms) = list_ex is_timeline ?ms"
      by (simp add: list_ex_iff tl)
    have fd: "find is_timeline (map f ?ms) = map_option f (find is_timeline ?ms)"
      by (simp add: find_over_map tl)
    show ?thesis
    proof (cases "list_ex is_timeline ?ms")
      case True
      then obtain ass where f: "find is_timeline ?ms = Some ass"
        by (cases "find is_timeline ?ms") (auto simp: find_None_iff list_ex_iff)
      have "best_copy as = Inr ass"
        using Inr pm True f by (simp add: best_copy_def Let_def)
      moreover have "best_copy (map f as) = Inr (f ass)"
        using sc' pm True f ex fd by (simp add: best_copy_def Let_def max_scorers_map)
      ultimately show ?thesis by simp
    next
      case none: False
      have "?m \<in> set sc" using ne by simp
      then obtain p where f: "find (\<lambda>p. snd p = ?m) (enumerate 0 sc) = Some p"
        using find_enumerate_none [of ?m sc]
        by (cases "find (\<lambda>p. snd p = ?m) (enumerate 0 sc)") auto
      from find_enumerate_first [OF f] have k: "fst p < length as" using len by simp
      have "best_copy as = Inr (as ! fst p)"
        using Inr pm none f by (simp add: best_copy_def Let_def)
      moreover have "best_copy (map f as) = Inr (map f as ! fst p)"
        using sc' pm none f ex by (simp add: best_copy_def Let_def max_scorers_map)
      ultimately show ?thesis using k by simp
    qed
  qed
qed

section \<open>Properties of the path prefix\<close>

lemma split_nonempty: "split c s \<noteq> []"
  by (induction s) (auto split: list.splits)

lemma split_no_sep: "c \<notin> set a \<Longrightarrow> split c a = [a]"
  by (induction a) auto

lemma split_append_sep: "c \<notin> set a \<Longrightarrow> split c (a @ c # rest) = a # split c rest"
  by (induction a) auto

lemma join_cons: "join sep ((x # w) # ws) = x # join sep (w # ws)"
  by (cases ws) simp_all

lemma join_split: "join [c] (split c p) = p"
proof (induction p)
  case Nil
  show ?case by simp
next
  case (Cons x p)
  obtain w ws where s: "split c p = w # ws"
    using split_nonempty [of c p] by (cases "split c p") auto
  show ?case
  proof (cases "x = c")
    case True
    have "join [c] ([] # w # ws) = c # join [c] (w # ws)" by simp
    with True s Cons show ?thesis by simp
  next
    case False
    with s Cons show ?thesis by (simp add: join_cons)
  qed
qed

lemma length_split: "length (split c p) = Suc (length (filter (\<lambda>x. x = c) p))"
proof (induction p)
  case Nil
  show ?case by simp
next
  case (Cons x p)
  obtain w ws where s: "split c p = w # ws"
    using split_nonempty [of c p] by (cases "split c p") auto
  with Cons show ?case by simp
qed

lemma pfx_short:
  assumes "length (filter (\<lambda>x. x = CHR ''/'') path) \<le> 2"
  shows "pfx path = path"
proof -
  have "length (split CHR ''/'' path) \<le> 3" using assms by (simp add: length_split)
  then have "take 3 (split CHR ''/'' path) = split CHR ''/'' path" by simp
  then show ?thesis using join_split [of "CHR ''/''" path] by (simp add: pfx_def)
qed

lemma pfx_fields:
  assumes "CHR ''/'' \<notin> set a" and "CHR ''/'' \<notin> set b" and "CHR ''/'' \<notin> set c"
  shows "pfx (a @ ''/'' @ b @ ''/'' @ c @ ''/'' @ rest) = a @ ''/'' @ b @ ''/'' @ c"
    and "pfx (a @ ''/'' @ b @ ''/'' @ c) = a @ ''/'' @ b @ ''/'' @ c"
  using assms by (simp_all add: pfx_def split_append_sep split_no_sep)

lemma first_sep:
  assumes "0 < length (filter (\<lambda>x. x = c) p)"
  shows "\<exists>a rest. c \<notin> set a \<and> p = a @ c # rest
           \<and> length (filter (\<lambda>x. x = c) p) = Suc (length (filter (\<lambda>x. x = c) rest))"
proof -
  from assms have "filter (\<lambda>x. x = c) p \<noteq> []" by auto
  then have "c \<in> set p" by (auto simp: filter_empty_conv)
  then obtain a rest where p: "p = a @ c # rest" and a: "c \<notin> set a"
    by (auto dest: split_list_first)
  have "filter (\<lambda>x. x = c) a = []" using a by (auto simp: filter_empty_conv)
  then have "length (filter (\<lambda>x. x = c) p) = Suc (length (filter (\<lambda>x. x = c) rest))"
    by (simp add: p)
  with p a show ?thesis by blast
qed

lemma three_seps:
  assumes "3 \<le> length (filter (\<lambda>x. x = c) p)"
  shows "\<exists>a b d rest. c \<notin> set a \<and> c \<notin> set b \<and> c \<notin> set d \<and> p = a @ c # b @ c # d @ c # rest"
proof -
  from assms have "0 < length (filter (\<lambda>x. x = c) p)" by linarith
  from first_sep [OF this] obtain a r1 where
    1: "c \<notin> set a" "p = a @ c # r1"
       "length (filter (\<lambda>x. x = c) p) = Suc (length (filter (\<lambda>x. x = c) r1))" by blast
  with assms have "0 < length (filter (\<lambda>x. x = c) r1)" by linarith
  from first_sep [OF this] obtain b r2 where
    2: "c \<notin> set b" "r1 = b @ c # r2"
       "length (filter (\<lambda>x. x = c) r1) = Suc (length (filter (\<lambda>x. x = c) r2))" by blast
  with assms 1(3) have "0 < length (filter (\<lambda>x. x = c) r2)" by linarith
  from first_sep [OF this] obtain d rest where
    3: "c \<notin> set d" "r2 = d @ c # rest" by blast
  from 1(1,2) 2(1,2) 3 show ?thesis by blast
qed

text \<open>pfx on every path: a path with at most two separators is its own prefix, and a path
  with more is cut before its third separator.\<close>

lemma pfx_cases:
  "(length (filter (\<lambda>x. x = CHR ''/'') path) \<le> 2 \<and> pfx path = path)
   \<or> (\<exists>a b c rest. CHR ''/'' \<notin> set a \<and> CHR ''/'' \<notin> set b \<and> CHR ''/'' \<notin> set c
         \<and> path = a @ ''/'' @ b @ ''/'' @ c @ ''/'' @ rest
         \<and> pfx path = a @ ''/'' @ b @ ''/'' @ c)"
proof (cases "length (filter (\<lambda>x. x = CHR ''/'') path) \<le> 2")
  case True
  then show ?thesis by (simp add: pfx_short)
next
  case False
  then have "3 \<le> length (filter (\<lambda>x. x = CHR ''/'') path)" by simp
  from three_seps [OF this] obtain a b c rest where
    s: "CHR ''/'' \<notin> set a" "CHR ''/'' \<notin> set b" "CHR ''/'' \<notin> set c"
    and p: "path = a @ ''/'' @ b @ ''/'' @ c @ ''/'' @ rest" by auto
  have "pfx path = a @ ''/'' @ b @ ''/'' @ c" unfolding p by (rule pfx_fields(1) [OF s])
  with s p show ?thesis by blast
qed

lemma two_component_absolute:
  assumes "CHR ''/'' \<notin> set b" and "CHR ''/'' \<notin> set c" and "b \<noteq> []" and "c \<noteq> []"
  shows "two_component_prefix (''/'' @ b @ ''/'' @ c @ ''/'' @ rest) = ''/'' @ b @ ''/'' @ c"
  using assms by (simp add: two_component_prefix_def path_components_def split_append_sep)

lemma two_component_absolute_end:
  assumes "CHR ''/'' \<notin> set b" and "CHR ''/'' \<notin> set c" and "b \<noteq> []" and "c \<noteq> []"
  shows "two_component_prefix (''/'' @ b @ ''/'' @ c) = ''/'' @ b @ ''/'' @ c"
  using assms
  by (simp add: two_component_prefix_def path_components_def split_append_sep split_no_sep)

lemma pfx_absolute_spec:
  assumes "CHR ''/'' \<notin> set b" and "CHR ''/'' \<notin> set c" and "b \<noteq> []" and "c \<noteq> []"
  shows "pfx (''/'' @ b @ ''/'' @ c @ ''/'' @ rest)
           = two_component_prefix (''/'' @ b @ ''/'' @ c @ ''/'' @ rest)"
    and "pfx (''/'' @ b @ ''/'' @ c) = two_component_prefix (''/'' @ b @ ''/'' @ c)"
proof -
  have e: "CHR ''/'' \<notin> set []" by simp
  have "pfx ([] @ ''/'' @ b @ ''/'' @ c @ ''/'' @ rest) = [] @ ''/'' @ b @ ''/'' @ c"
    by (rule pfx_fields(1) [OF e assms(1,2)])
  then show "pfx (''/'' @ b @ ''/'' @ c @ ''/'' @ rest)
           = two_component_prefix (''/'' @ b @ ''/'' @ c @ ''/'' @ rest)"
    using two_component_absolute [OF assms, of rest] by simp
  have "pfx ([] @ ''/'' @ b @ ''/'' @ c) = [] @ ''/'' @ b @ ''/'' @ c"
    by (rule pfx_fields(2) [OF e assms(1,2)])
  then show "pfx (''/'' @ b @ ''/'' @ c) = two_component_prefix (''/'' @ b @ ''/'' @ c)"
    using two_component_absolute_end [OF assms] by simp
qed

lemma find_blessed_Some:
  assumes "find_blessed plist g = Some bp"
  shows "\<exists>i<length plist. plist ! i = bp \<and> (\<exists>ass\<in>set g. pfx (originalPath ass) = bp)
           \<and> (\<forall>j<i. \<forall>ass\<in>set g. pfx (originalPath ass) \<noteq> plist ! j)"
  using assms unfolding find_blessed_def find_Some_iff list_ex_iff by blast

lemma find_blessed_None:
  "find_blessed plist g = None \<longleftrightarrow> (\<forall>ass\<in>set g. pfx (originalPath ass) \<notin> set plist)"
  unfolding find_blessed_def find_None_iff list_ex_iff by blast

subsection \<open>The run reads the paths through pfx only\<close>

lemma with_path_fields:
  "asset_id (with_path new a) = asset_id a"
  "visibility (with_path new a) = visibility a"
  "exifInfo (with_path new a) = exifInfo a"
  "originalPath (with_path new a) = new a"
  "is_timeline (with_path new a) = is_timeline a"
  by (simp_all add: with_path_def is_timeline_def)

lemma filter_over_map:
  assumes "\<forall>a\<in>set g. Q (f a) = P a"
  shows "filter Q (map f g) = map f (filter P g)"
  using assms by (induction g) simp_all

lemma find_blessed_renamed:
  assumes "\<forall>a\<in>set g. pfx (new a) = pfx (originalPath a)"
  shows "find_blessed plist (map (with_path new) g) = find_blessed plist g"
proof -
  have "(\<lambda>prefix. list_ex (\<lambda>ass. pfx (originalPath ass) = prefix) (map (with_path new) g))
      = (\<lambda>prefix. list_ex (\<lambda>ass. pfx (originalPath ass) = prefix) g)"
    using assms by (auto simp: list_ex_iff with_path_fields fun_eq_iff)
  then show ?thesis by (simp only: find_blessed_def)
qed

lemma phase_a_renamed:
  assumes "\<forall>a\<in>set g. pfx (new a) = pfx (originalPath a)"
  shows "phase_a bp (map (with_path new) g) = phase_a bp g"
proof -
  have "filter (\<lambda>ass. is_timeline ass \<and> pfx (originalPath ass) \<noteq> bp) (map (with_path new) g)
      = map (with_path new) (filter (\<lambda>ass. is_timeline ass \<and> pfx (originalPath ass) \<noteq> bp) g)"
    by (rule filter_over_map) (use assms in \<open>simp add: with_path_fields\<close>)
  then show ?thesis by (simp add: phase_a_def Let_def o_def with_path_fields)
qed

lemma blessed_renamed:
  assumes "\<forall>a\<in>set g. pfx (new a) = pfx (originalPath a)"
  shows "blessed_copies_of bp (map (with_path new) g)
           = map (with_path new) (blessed_copies_of bp g)"
  unfolding blessed_copies_of_def
  by (rule filter_over_map) (use assms in \<open>simp add: with_path_fields\<close>)

lemma phase_b_calls_renamed:
  assumes "distinct (map asset_id g)" and "k \<in> set g"
  shows "phase_b_calls (with_path new k) (map (with_path new) g) = phase_b_calls k g"
proof -
  have inj: "inj_on asset_id (set g)" using assms(1) by (simp add: distinct_map)
  have "\<forall>a\<in>set g. (with_path new a \<noteq> with_path new k) = (a \<noteq> k)"
  proof
    fix a assume a: "a \<in> set g"
    show "(with_path new a \<noteq> with_path new k) = (a \<noteq> k)"
    proof
      assume "with_path new a \<noteq> with_path new k"
      then show "a \<noteq> k" by auto
    next
      assume "a \<noteq> k"
      with inj a assms(2) have "asset_id a \<noteq> asset_id k" by (auto dest: inj_onD)
      then have "asset_id (with_path new a) \<noteq> asset_id (with_path new k)"
        by (simp add: with_path_fields)
      then show "with_path new a \<noteq> with_path new k" by auto
    qed
  qed
  then have "filter (\<lambda>ass. ass \<noteq> with_path new k) (map (with_path new) g)
      = map (with_path new) (filter (\<lambda>ass. ass \<noteq> k) g)"
    by (rule filter_over_map)
  then show ?thesis by (simp add: phase_b_calls_def Let_def o_def with_path_fields)
qed

lemma phase_b_renamed:
  assumes "distinct (map asset_id g)" and "\<forall>a\<in>set g. pfx (new a) = pfx (originalPath a)"
  shows "phase_b bp (map (with_path new) g) = phase_b bp g"
proof -
  let ?bl = "blessed_copies_of bp g"
  have bl: "blessed_copies_of bp (map (with_path new) g) = map (with_path new) ?bl"
    by (rule blessed_renamed [OF assms(2)])
  have bc: "best_copy (map (with_path new) ?bl)
      = (case best_copy ?bl of Inl e \<Rightarrow> Inl e | Inr r \<Rightarrow> Inr (with_path new r))"
    by (rule best_copy_map) (simp_all add: with_path_fields)
  show ?thesis
  proof (cases "best_copy ?bl")
    case (Inl e)
    with bc show ?thesis by (simp add: phase_b_def Let_def bl)
  next
    case (Inr k)
    then have "k \<in> set ?bl" by (rule best_copy_returns_member)
    then have "k \<in> set g" by (simp add: blessed_copies_of_def)
    from phase_b_calls_renamed [OF assms(1) this] Inr bc
    show ?thesis by (simp add: phase_b_def Let_def bl)
  qed
qed

lemma dedup_set_renamed:
  assumes "distinct (map asset_id g)" and "\<forall>a\<in>set g. pfx (new a) = pfx (originalPath a)"
  shows "dedup_set plist (map (with_path new) g) = dedup_set plist g"
  unfolding dedup_set_def find_blessed_renamed [OF assms(2)] phase_a_renamed [OF assms(2)]
      phase_b_renamed [OF assms] by (rule refl)

subsection \<open>The examples\<close>

lemma pfx_upload: "pfx upload_path = ''upload/upload/d8fbf34b-0e56-43dd-87b3-b7774f6b3f3b''"
  by (simp add: pfx_def upload_path_def)

lemma two_upload: "two_component_prefix upload_path = ''upload/upload''"
  by (simp add: two_component_prefix_def path_components_def upload_path_def)

lemma pfx_paths:
  "pfx ''/photos/wedding/a.jpg'' = ''/photos/wedding''"
  "pfx ''/photos/wedding/b.jpg'' = ''/photos/wedding''"
  "pfx ''/photos/wedding/n.mov'' = ''/photos/wedding''"
  "pfx ''/photos/wedding/moved/A'' = ''/photos/wedding''"
  "pfx ''/photos/wedding/moved/B'' = ''/photos/wedding''"
  "pfx ''/photos/misc/b.jpg'' = ''/photos/misc''"
  "pfx ''/photos/misc/c.jpg'' = ''/photos/misc''"
  by (simp_all add: pfx_def)

section \<open>Properties of the presence classifier\<close>

text \<open>
  C10. For a target library identifier that is None or empty, find_assets_not_in_library
  returns the empty list, makes no request to the catalog and leaves the caches as they were.
\<close>

theorem find_not_in_library_falsy:
  assumes "falsy targetLibraryId"
  shows "find_assets_not_in_library cat st targetLibraryId = ([], st, [])"
  using assms by (simp add: find_assets_not_in_library_def)

theorem find_not_in_library_falsy_witness:
  "falsy None \<and> falsy (Some '''')
   \<and> find_assets_not_in_library example_catalog fresh_api None = ([], fresh_api, [])
   \<and> find_assets_not_in_library example_catalog fresh_api (Some '''') = ([], fresh_api, [])"
proof -
  have h1: "falsy None" and h2: "falsy (Some '''')" by (simp_all add: falsy_def)
  from h1 h2 find_not_in_library_falsy [OF h1] find_not_in_library_falsy [OF h2]
  show ?thesis by (intro conjI)
qed

text \<open>
  C3. The code tests the siblings against the library being enumerated, not against the
  target. With the target lib2, the asset a1 of lib1 has its sibling a2 in lib2 and is
  returned all the same; a3 of lib1 has no sibling in lib2 (its only sibling a4 is in lib1)
  and is not returned.
\<close>

theorem find_not_in_library_reads_own_library:
  "fst (find_assets_not_in_library example_catalog fresh_api (Some ''lib2''))
     = [stored ''a1'' ''/photos/misc/a.jpg'' ''lib1'' ''d1'']
   \<and> \<not> qualifies_spec (cat_duplicates example_catalog) ''lib2''
         (stored ''a1'' ''/photos/misc/a.jpg'' ''lib1'' ''d1'')
   \<and> qualifies_spec (cat_duplicates example_catalog) ''lib2''
         (stored ''a3'' ''/photos/misc/c.jpg'' ''lib1'' ''d2'')"
  by (simp add: find_assets_not_in_library_def falsy_def get_all_libraries_def py_dict_def
      example_catalog_def fresh_api_def upload_device_id_def get_library_assets_def
      dups_of_def load_dups_def stored_def qualifies_spec_def siblings_spec_def)

section \<open>Properties of the resolution engine\<close>

lemma dedup_set_unlisted:
  assumes "\<forall>ass\<in>set g. pfx (originalPath ass) \<notin> set plist"
  shows "dedup_set plist g = ([], None)"
  using assms by (simp add: dedup_set_def find_blessed_None [symmetric])

lemma dedup_loop_skip:
  assumes "dedup_set plist g = ([], None)"
  shows "dedup_loop plist (pre @ g # post) = dedup_loop plist (pre @ post)"
proof (induction pre)
  case Nil
  show ?case using assms by (simp split: prod.splits)
next
  case (Cons x pre)
  then show ?case by (simp split: prod.splits option.splits)
qed

lemma unlisted_set_unlisted:
  "list_all (\<lambda>ass. pfx (originalPath ass) \<notin> set path_prefix_priority_list) (assets unlisted_set)"
  by (simp add: unlisted_set_def photo_sel pfx_def path_prefix_priority_list_def)

text \<open>
  C9 (as amended). A group none of whose members has a prefix in the priority list causes no
  request, and the run goes on with the other groups as if the group were not there.
\<close>

theorem dedup_skips_unlisted:
  assumes "\<forall>ass\<in>set (assets d). pfx (originalPath ass) \<notin> set plist"
  shows "dedup_set plist (assets d) = ([], None)
       \<and> dedup plist (pre @ d # post) = dedup plist (pre @ post)"
proof -
  have s: "dedup_set plist (assets d) = ([], None)" by (rule dedup_set_unlisted [OF assms])
  have "dedup_loop plist (map assets pre @ assets d # map assets post)
      = dedup_loop plist (map assets pre @ map assets post)"
    by (rule dedup_loop_skip [OF s])
  then show ?thesis using s by (simp add: dedup_def)
qed

theorem dedup_skips_unlisted_witness:
  "list_all (\<lambda>ass. pfx (originalPath ass) \<notin> set path_prefix_priority_list) (assets unlisted_set)
   \<and> dedup_set path_prefix_priority_list (assets unlisted_set) = ([], None)
   \<and> dedup path_prefix_priority_list ([] @ unlisted_set # [wedding_set])
       = dedup path_prefix_priority_list ([] @ [wedding_set])"
proof -
  have h: "\<forall>ass\<in>set (assets unlisted_set). pfx (originalPath ass) \<notin> set path_prefix_priority_list"
    using unlisted_set_unlisted by (simp only: list_all_iff)
  from dedup_skips_unlisted [OF h, of "[]" "[wedding_set]"] unlisted_set_unlisted
  show ?thesis by (intro conjI) blast+
qed

text \<open>
  C9, counterexample. dedup returns nothing: the run on a group that is skipped ends as the run on
  no group at all does, with no request and the value None; no skip is counted.
\<close>

theorem dedup_no_skip_count_counterexample:
  "dedup path_prefix_priority_list [unlisted_set] = ([], Inr ())
   \<and> dedup path_prefix_priority_list [] = ([], Inr ())"
proof -
  have h: "\<forall>ass\<in>set (assets unlisted_set). pfx (originalPath ass) \<notin> set path_prefix_priority_list"
    using unlisted_set_unlisted by (simp only: list_all_iff)
  have "dedup_set path_prefix_priority_list (assets unlisted_set) = ([], None)"
    by (rule dedup_set_unlisted [OF h])
  then show ?thesis by (simp add: dedup_def)
qed

subsection \<open>The examples, evaluated\<close>

lemma find_blessed_wedding:
  "pfx (originalPath a) = ''/photos/wedding'' \<Longrightarrow>
     find_blessed path_prefix_priority_list (a # g) = Some ''/photos/wedding''"
  by (simp add: find_blessed_def path_prefix_priority_list_def)

lemma scores_of_two: "scores_of two_copies = Inr [10, 10]"
  by (simp add: two_copies_def scores_of_def add_score_def track_def photo_sel)

lemma best_copy_two:
  "best_copy two_copies = Inr (photo ''B'' ''/photos/wedding/b.jpg'' ''timeline'' 200 20 10)"
  unfolding best_copy_def scores_of_two
  by (simp add: py_max_def max_scorers_of_def two_copies_def photo_sel)

lemma blessed_two: "blessed_copies_of ''/photos/wedding'' two_copies = two_copies"
  by (simp add: blessed_copies_of_def two_copies_def photo_sel pfx_paths)


lemma photo_neq: "i \<noteq> j \<Longrightarrow> photo i p v sz w h \<noteq> photo j p' v' sz' w' h'"
  by (simp add: photo_def)

lemma phase_b_two:
  "phase_b ''/photos/wedding'' two_copies
     = ([UpdateAssets [''A''] ''archive'', UpdateAssets [''B''] ''timeline''], None)"
  unfolding phase_b_def blessed_two Let_def best_copy_two
  by (simp add: two_copies_def phase_b_calls_def photo_neq photo_sel)


lemma phase_a_two: "phase_a ''/photos/wedding'' two_copies = []"
  by (simp add: phase_a_def two_copies_def photo_sel pfx_paths)

lemma dedup_set_two:
  "dedup_set path_prefix_priority_list two_copies
     = ([UpdateAssets [''A''] ''archive'', UpdateAssets [''B''] ''timeline''], None)"
proof -
  have "find_blessed path_prefix_priority_list two_copies = Some ''/photos/wedding''"
    unfolding two_copies_def by (rule find_blessed_wedding) (simp add: photo_sel pfx_paths)
  then show ?thesis by (simp add: dedup_set_def phase_a_two phase_b_two)
qed

lemma server_apply_two:
  "server_apply [UpdateAssets [''A''] ''archive'', UpdateAssets [''B''] ''timeline''] two_copies
     = two_copies"
  by (simp add: server_apply_def update_asset_def two_copies_def photo_def)

lemma dedup_set_lonely:
  "dedup_set path_prefix_priority_list lonely_blessed = ([UpdateAssets [''B''] ''archive''], None)"
proof -
  have "find_blessed path_prefix_priority_list lonely_blessed = Some ''/photos/wedding''"
    unfolding lonely_blessed_def by (rule find_blessed_wedding) (simp add: photo_sel pfx_paths)
  then show ?thesis
    by (simp add: dedup_set_def phase_a_def phase_b_def blessed_copies_of_def lonely_blessed_def
        photo_sel pfx_paths)
qed


lemma distinct_wedding: "distinct (map asset_id (concat (map assets [wedding_set])))"
  by (simp add: wedding_set_def two_copies_def photo_sel)

lemma ok_two: "list_all exif_ok two_copies"
  by (simp add: two_copies_def photo_ok)

lemma ok_wedding: "list_all (\<lambda>d. list_all exif_ok (assets d)) [wedding_set]"
  by (simp add: wedding_set_def ok_two)


lemma unmeasured_sel:
  "asset_id unmeasured = ''N''" "originalPath unmeasured = ''/photos/wedding/n.mov''"
  by (simp_all add: unmeasured_def)

lemma blessed_null: "blessed_copies_of ''/photos/wedding'' null_copies = null_copies"
  by (simp add: blessed_copies_of_def null_copies_def photo_sel unmeasured_sel pfx_paths)


text \<open>
  C1. A group whose only copy under the blessed prefix is archived: the run archives the
  visible copy elsewhere and nothing is restored, so no member is on the timeline
  afterwards.
\<close>

theorem dedup_leaves_none_visible:
  "dedup path_prefix_priority_list [\<lparr>dup_duplicateId = ''d1'', assets = lonely_blessed\<rparr>]
     = ([UpdateAssets [''B''] ''archive''], Inr ())
   \<and> find_blessed path_prefix_priority_list lonely_blessed = Some ''/photos/wedding''
   \<and> filter is_timeline (server_apply [UpdateAssets [''B''] ''archive''] lonely_blessed) = []"
proof -
  have "find_blessed path_prefix_priority_list lonely_blessed = Some ''/photos/wedding''"
    unfolding lonely_blessed_def by (rule find_blessed_wedding) (simp add: photo_sel pfx_paths)
  moreover have "filter is_timeline (server_apply [UpdateAssets [''B''] ''archive''] lonely_blessed) = []"
    by (simp add: server_apply_def update_asset_def lonely_blessed_def photo_def is_timeline_def)
  ultimately show ?thesis by (simp add: dedup_def dedup_set_lonely)
qed

subsection \<open>The requests for a group\<close>

lemma best_copy_Inr_ok:
  assumes "best_copy as = Inr k"
  shows "list_all exif_ok as" and "k \<in> set as"
proof -
  from assms show "list_all exif_ok as" using best_copy_returns_iff [of as] by blast
  from assms show "k \<in> set as" by (rule best_copy_returns_member)
qed


lemma blessed_ok: "list_all exif_ok g \<Longrightarrow> list_all exif_ok (blessed_copies_of bp g)"
  by (simp add: blessed_copies_of_def list_all_iff)

lemma phase_b_many:
  assumes "1 < length (blessed_copies_of bp g)" and "list_all exif_ok (blessed_copies_of bp g)"
  shows "\<exists>k\<in>set (blessed_copies_of bp g).
           best_copy (blessed_copies_of bp g) = Inr k \<and> phase_b bp g = (phase_b_calls k g, None)"
proof -
  have "blessed_copies_of bp g \<noteq> []" using assms(1) by auto
  from best_copy_in [OF this assms(2)] obtain k where
    k: "k \<in> set (blessed_copies_of bp g)" "best_copy (blessed_copies_of bp g) = Inr k" by blast
  have "phase_b bp g = (phase_b_calls k g, None)"
    using assms(1) k(2) by (simp add: phase_b_def Let_def)
  with k show ?thesis by blast
qed


lemma phase_b_few:
  assumes "\<not> 1 < length (blessed_copies_of bp g)"
  shows "phase_b bp g = ([], None)"
  using assms by (simp add: phase_b_def Let_def)

lemma phase_b_no_error:
  assumes "list_all exif_ok g"
  shows "snd (phase_b bp g) = None"
proof (cases "1 < length (blessed_copies_of bp g)")
  case True
  from phase_b_many [OF True blessed_ok [OF assms]] show ?thesis by auto
next
  case False
  then show ?thesis by (simp add: phase_b_few)
qed

lemma dedup_set_no_error:
  assumes "list_all exif_ok g"
  shows "snd (dedup_set plist g) = None"
proof (cases "find_blessed plist g")
  case None
  then show ?thesis by (simp add: dedup_set_def)
next
  case (Some bp)
  obtain cs r where p: "phase_b bp g = (cs, r)" by (cases "phase_b bp g")
  with phase_b_no_error [OF assms, of bp] have "r = None" by simp
  with Some p show ?thesis by (simp add: dedup_set_def)
qed

lemma dedup_loop_concat:
  assumes "\<forall>g\<in>set gs. list_all exif_ok g"
  shows "dedup_loop plist gs = (concat (map (\<lambda>g. fst (dedup_set plist g)) gs), Inr ())"
  using assms
proof (induction gs)
  case Nil
  show ?case by simp
next
  case (Cons g gs)
  obtain cs r where d: "dedup_set plist g = (cs, r)" by (cases "dedup_set plist g")
  have "list_all exif_ok g" using Cons.prems by simp
  from dedup_set_no_error [OF this, of plist] d have "r = None" by simp
  with d Cons show ?case by simp
qed

lemma phase_b_ids:
  assumes "c \<in> set (fst (phase_b bp g))"
  shows "call_ids c \<subseteq> asset_id ` set g"
proof (cases "1 < length (blessed_copies_of bp g)")
  case False
  with assms show ?thesis by (simp add: phase_b_few)
next
  case True
  show ?thesis
  proof (cases "best_copy (blessed_copies_of bp g)")
    case (Inl e)
    with True assms show ?thesis by (simp add: phase_b_def Let_def)
  next
    case (Inr k)
    then have "k \<in> set (blessed_copies_of bp g)" by (rule best_copy_Inr_ok)
    then have kg: "k \<in> set g" by (simp add: blessed_copies_of_def)
    from True Inr assms have "c \<in> set (phase_b_calls k g)" by (simp add: phase_b_def Let_def)
    then show ?thesis using kg
      by (auto simp: phase_b_calls_def Let_def call_ids_def split: if_splits)
  qed
qed

lemma other_member:
  assumes "distinct g" and "1 < length (filter P g)"
  shows "filter (\<lambda>a. a \<noteq> k) g \<noteq> []"
proof
  assume "filter (\<lambda>a. a \<noteq> k) g = []"
  then have "\<forall>a\<in>set g. a = k" by (simp add: filter_empty_conv)
  then have "set (filter P g) \<subseteq> {k}" by auto
  then have c: "card (set (filter P g)) \<le> card {k}" by (intro card_mono) simp_all
  have "card (set (filter P g)) = length (filter P g)"
    by (rule distinct_card) (use assms(1) in simp)
  with c assms(2) show False by simp
qed

lemma phase_b_calls_some:
  assumes "filter (\<lambda>a. a \<noteq> k) g \<noteq> []"
  shows "phase_b_calls k g =
     [UpdateAssets (map asset_id (filter (\<lambda>a. a \<noteq> k) g)) ''archive'',
      UpdateAssets [asset_id k] ''timeline'']"
  using assms by (simp add: phase_b_calls_def Let_def)




subsection \<open>The catalog after a run, and the next run\<close>

lemma update_asset_fields:
  "asset_id (update_asset c a) = asset_id a"
  "originalPath (update_asset c a) = originalPath a"
  "exifInfo (update_asset c a) = exifInfo a"
  by (cases c; simp add: update_asset_def)+

lemma update_asset_miss: "asset_id a \<notin> set ids \<Longrightarrow> update_asset (UpdateAssets ids v) a = a"
  by (simp add: update_asset_def)

lemma update_asset_hit:
  "asset_id a \<in> set ids \<Longrightarrow> update_asset (UpdateAssets ids v) a = a\<lparr>visibility := v\<rparr>"
  by (simp add: update_asset_def)

lemma id_in_filter:
  assumes "distinct (map asset_id g)" and "a \<in> set g"
  shows "asset_id a \<in> set (map asset_id (filter P g)) \<longleftrightarrow> P a"
proof
  assume "asset_id a \<in> set (map asset_id (filter P g))"
  then obtain b where b: "b \<in> set g" "P b" "asset_id b = asset_id a" by auto
  have "inj_on asset_id (set g)" using assms(1) by (simp add: distinct_map)
  with b assms(2) have "b = a" by (auto dest: inj_onD)
  with b show "P a" by simp
next
  assume "P a"
  with assms(2) show "asset_id a \<in> set (map asset_id (filter P g))" by auto
qed

lemma phase_a_effect:
  assumes "distinct (map asset_id g)" and "a \<in> set g"
  shows "fold update_asset (phase_a bp g) a = demoted bp a"
proof -
  let ?P = "\<lambda>ass. is_timeline ass \<and> pfx (originalPath ass) \<noteq> bp"
  have m: "asset_id a \<in> set (map asset_id (filter ?P g)) \<longleftrightarrow> ?P a"
    by (rule id_in_filter [OF assms])
  show ?thesis
  proof (cases "map asset_id (filter ?P g) = []")
    case True
    with m have "\<not> ?P a" by simp
    then have "demoted bp a = a" by (auto simp: demoted_def)
    moreover have "phase_a bp g = []" using True by (simp add: phase_a_def Let_def)
    ultimately show ?thesis by simp
  next
    case False
    then have "phase_a bp g = [UpdateAssets (map asset_id (filter ?P g)) ''archive'']"
      by (simp add: phase_a_def Let_def)
    with m show ?thesis by (auto simp: demoted_def update_asset_def)
  qed
qed

lemma phase_b_effect:
  assumes "distinct (map asset_id g)" and "a \<in> set g" and "k \<in> set g"
    and "asset_id x = asset_id a" and "filter (\<lambda>b. b \<noteq> k) g \<noteq> []"
  shows "fold update_asset (phase_b_calls k g) x =
           x\<lparr>visibility := (if a = k then ''timeline'' else ''archive'')\<rparr>"
proof -
  have m: "asset_id a \<in> set (map asset_id (filter (\<lambda>b. b \<noteq> k) g)) \<longleftrightarrow> a \<noteq> k"
    by (rule id_in_filter [OF assms(1,2)])
  have "inj_on asset_id (set g)" using assms(1) by (simp add: distinct_map)
  then have e: "asset_id a = asset_id k \<longleftrightarrow> a = k" using assms(2,3) by (auto dest: inj_onD)
  show ?thesis
    unfolding phase_b_calls_some [OF assms(5)] using m e assms(4)
    by (auto simp: update_asset_def)
qed

lemma after_run_many:
  assumes "distinct (map asset_id g)" and "find_blessed plist g = Some bp" and "bp \<noteq> []"
    and "1 < length (blessed_copies_of bp g)"
    and "best_copy (blessed_copies_of bp g) = Inr k"
  shows "after_run plist g = map (converged k) g"
proof -
  have dg: "distinct g" using assms(1) by (simp add: distinct_map)
  have k: "k \<in> set (blessed_copies_of bp g)" using assms(5) by (rule best_copy_Inr_ok)
  have pb: "phase_b bp g = (phase_b_calls k g, None)"
    using assms(4,5) by (simp add: phase_b_def Let_def)
  have kg: "k \<in> set g" using k by (simp add: blessed_copies_of_def)
  have kb: "pfx (originalPath k) = bp" using k by (simp add: blessed_copies_of_def)
  have oth: "filter (\<lambda>b. b \<noteq> k) g \<noteq> []"
    using other_member [OF dg, of "\<lambda>ass. pfx (originalPath ass) = bp" k] assms(4)
    by (simp add: blessed_copies_of_def)
  have cs: "fst (dedup_set plist g) = phase_a bp g @ phase_b_calls k g"
    using assms(2,3) pb by (simp add: dedup_set_def)
  have "\<And>a. a \<in> set g \<Longrightarrow> fold update_asset (phase_a bp g @ phase_b_calls k g) a = converged k a"
  proof -
    fix a assume a: "a \<in> set g"
    have "fold update_asset (phase_a bp g @ phase_b_calls k g) a
        = fold update_asset (phase_b_calls k g) (demoted bp a)"
      by (simp add: phase_a_effect [OF assms(1) a])
    also have "\<dots> = (demoted bp a)\<lparr>visibility := (if a = k then ''timeline'' else ''archive'')\<rparr>"
      by (rule phase_b_effect [OF assms(1) a kg _ oth]) (simp add: demoted_def)
    also have "\<dots> = converged k a" by (simp add: demoted_def converged_def)
    finally show "fold update_asset (phase_a bp g @ phase_b_calls k g) a = converged k a" .
  qed
  then show ?thesis by (simp add: after_run_def cs server_apply_def)
qed

lemma after_run_few:
  assumes "distinct (map asset_id g)" and "find_blessed plist g = Some bp" and "bp \<noteq> []"
    and "\<not> 1 < length (blessed_copies_of bp g)"
  shows "after_run plist g = map (demoted bp) g"
proof -
  have cs: "fst (dedup_set plist g) = phase_a bp g"
    using assms(2,3) phase_b_few [OF assms(4)] by (simp add: dedup_set_def)
  show ?thesis
    by (simp add: after_run_def cs server_apply_def phase_a_effect [OF assms(1)])
qed

lemma after_run_skipped:
  assumes "find_blessed plist g = None \<or> find_blessed plist g = Some []"
  shows "fst (dedup_set plist g) = []" and "after_run plist g = g"
  using assms by (auto simp: after_run_def dedup_set_def server_apply_def)

lemma converged_fields:
  "asset_id (converged k a) = asset_id a"
  "originalPath (converged k a) = originalPath a"
  "exifInfo (converged k a) = exifInfo a"
  "is_timeline (converged k a) \<longleftrightarrow> a = k"
  by (simp_all add: converged_def is_timeline_def)

lemma demoted_fields:
  "asset_id (demoted bp a) = asset_id a"
  "originalPath (demoted bp a) = originalPath a"
  "exifInfo (demoted bp a) = exifInfo a"
  "is_timeline (demoted bp a) \<longleftrightarrow> is_timeline a \<and> pfx (originalPath a) = bp"
  by (auto simp: demoted_def is_timeline_def)

lemma find_blessed_map:
  assumes "\<And>a. originalPath (f a) = originalPath a"
  shows "find_blessed plist (map f g) = find_blessed plist g"
  by (simp add: find_blessed_def list_ex_iff assms)

lemma blessed_copies_map:
  assumes "\<And>a. originalPath (f a) = originalPath a"
  shows "blessed_copies_of bp (map f g) = map f (blessed_copies_of bp g)"
  by (simp add: blessed_copies_of_def filter_map o_def assms)

lemma best_copy_converged:
  assumes "bl \<noteq> []" and "best_copy bl = Inr k"
  shows "best_copy (map (converged k) bl) = Inr (converged k k)"
proof -
  let ?bl = "map (converged k) bl"
  obtain sc where sc: "scores_of bl = Inr sc"
    using assms(2) by (cases "scores_of bl") (simp_all add: best_copy_error)
  have "scores_of ?bl = scores_of bl" by (rule scores_of_map) (rule converged_fields)
  with sc have sc': "scores_of ?bl = Inr sc" by simp
  from best_copy_choice [OF assms(1) sc] obtain i where
    i: "i < length bl" "best_copy bl = Inr (bl ! i)" "sc ! i = Max (set sc)" by blast
  have ik: "bl ! i = k" using i(2) assms(2) by simp
  have ne: "?bl \<noteq> []" using assms(1) by simp
  from best_copy_choice [OF ne sc'] obtain j where
    j: "j < length ?bl" "best_copy ?bl = Inr (?bl ! j)"
       "if \<exists>n<length ?bl. sc ! n = Max (set sc) \<and> is_timeline (?bl ! n)
        then is_timeline (?bl ! j)
        else \<forall>m<j. sc ! m \<noteq> Max (set sc)" by blast
  have "is_timeline (?bl ! i)" using i(1) ik by (simp add: converged_fields)
  moreover have "i < length ?bl" using i(1) by simp
  ultimately have ex:
    "\<exists>n<length ?bl. sc ! n = Max (set sc) \<and> is_timeline (?bl ! n)"
    using i(3) by blast
  from j(3) ex have "is_timeline (?bl ! j)" by (simp only: if_True)
  then have "bl ! j = k" using j(1) by (simp add: converged_fields)
  then have "?bl ! j = converged k k" using j(1) by simp
  with j(2) show ?thesis by simp
qed

lemma phase_a_converged:
  assumes "pfx (originalPath k) = bp"
  shows "phase_a bp (map (converged k) g) = []"
proof -
  have "filter (\<lambda>ass. is_timeline ass \<and> pfx (originalPath ass) \<noteq> bp) (map (converged k) g) = []"
    using assms by (auto simp: filter_empty_conv converged_fields)
  then show ?thesis by (simp add: phase_a_def Let_def)
qed

lemma converged_eq: "converged k a = converged k k \<longleftrightarrow> a = k"
proof
  assume "converged k a = converged k k"
  then have "is_timeline (converged k a) = is_timeline (converged k k)" by simp
  then show "a = k" by (simp add: converged_fields)
qed simp

lemma phase_b_calls_converged:
  "phase_b_calls (converged k k) (map (converged k) g) = phase_b_calls k g"
proof -
  have "map asset_id (filter (\<lambda>ass. ass \<noteq> converged k k) (map (converged k) g))
      = map asset_id (filter (\<lambda>ass. ass \<noteq> k) g)"
    by (simp add: filter_map o_def converged_eq converged_fields)
  then show ?thesis by (simp add: phase_b_calls_def Let_def converged_fields)
qed

lemma dedup_set_converged:
  assumes "find_blessed plist g = Some bp" and "bp \<noteq> []"
    and "1 < length (blessed_copies_of bp g)"
    and "best_copy (blessed_copies_of bp g) = Inr k"
  shows "dedup_set plist (map (converged k) g) = (phase_b_calls k g, None)"
proof -
  let ?g = "map (converged k) g"
  have k: "k \<in> set (blessed_copies_of bp g)" using assms(4) by (rule best_copy_Inr_ok)
  then have kb: "pfx (originalPath k) = bp" by (simp add: blessed_copies_of_def)
  have fb: "find_blessed plist ?g = Some bp"
    using assms(1) by (simp add: find_blessed_map converged_fields)
  have bc: "blessed_copies_of bp ?g = map (converged k) (blessed_copies_of bp g)"
    by (rule blessed_copies_map) (rule converged_fields)
  have ne: "blessed_copies_of bp g \<noteq> []" using assms(3) by auto
  have best: "best_copy (blessed_copies_of bp ?g) = Inr (converged k k)"
    unfolding bc by (rule best_copy_converged [OF ne assms(4)])
  have "phase_b bp ?g = (phase_b_calls (converged k k) ?g, None)"
    using assms(3) best by (simp add: phase_b_def Let_def bc)
  then show ?thesis
    using fb assms(2) by (simp add: dedup_set_def phase_a_converged [OF kb] phase_b_calls_converged)
qed

lemma server_apply_converged:
  assumes "distinct (map asset_id g)" and "k \<in> set g" and "filter (\<lambda>b. b \<noteq> k) g \<noteq> []"
  shows "server_apply (phase_b_calls k g) (map (converged k) g) = map (converged k) g"
proof -
  have "\<And>a. a \<in> set g \<Longrightarrow>
      fold update_asset (phase_b_calls k g) (converged k a) = converged k a"
  proof -
    fix a assume a: "a \<in> set g"
    have "fold update_asset (phase_b_calls k g) (converged k a)
        = (converged k a)\<lparr>visibility := (if a = k then ''timeline'' else ''archive'')\<rparr>"
      by (rule phase_b_effect [OF assms(1) a assms(2) _ assms(3)]) (simp add: converged_fields)
    also have "\<dots> = converged k a" by (simp add: converged_def)
    finally show "fold update_asset (phase_b_calls k g) (converged k a) = converged k a" .
  qed
  then show ?thesis by (simp add: server_apply_def)
qed

lemma dedup_set_demoted:
  assumes "find_blessed plist g = Some bp" and "\<not> 1 < length (blessed_copies_of bp g)"
  shows "dedup_set plist (map (demoted bp) g) = ([], None)"
proof -
  let ?g = "map (demoted bp) g"
  have fb: "find_blessed plist ?g = Some bp"
    using assms(1) by (simp add: find_blessed_map demoted_fields)
  have bc: "blessed_copies_of bp ?g = map (demoted bp) (blessed_copies_of bp g)"
    by (rule blessed_copies_map) (rule demoted_fields)
  have "filter (\<lambda>ass. is_timeline ass \<and> pfx (originalPath ass) \<noteq> bp) ?g = []"
    by (auto simp: filter_empty_conv demoted_fields)
  then have pa: "phase_a bp ?g = []" by (simp add: phase_a_def Let_def)
  have pb: "phase_b bp ?g = ([], None)"
    by (rule phase_b_few) (use assms(2) in \<open>simp add: bc\<close>)
  show ?thesis using fb pa pb by (simp add: dedup_set_def)
qed

lemma second_run_group:
  assumes "distinct (map asset_id g)" and ok: "list_all exif_ok g"
  shows "dedup_set plist (after_run plist g) = (phase_b_of plist g, None)"
    and "server_apply (phase_b_of plist g) (after_run plist g) = after_run plist g"
proof -
  have "dedup_set plist (after_run plist g) = (phase_b_of plist g, None)
      \<and> server_apply (phase_b_of plist g) (after_run plist g) = after_run plist g"
  proof (cases "find_blessed plist g")
    case None
    then have "after_run plist g = g" and "dedup_set plist g = ([], None)"
      by (simp_all add: after_run_skipped dedup_set_def)
    with None show ?thesis by (simp add: phase_b_of_def server_apply_def)
  next
    case (Some bp)
    show ?thesis
    proof (cases "bp = []")
      case True
      with Some have "after_run plist g = g" and "dedup_set plist g = ([], None)"
        by (simp_all add: after_run_skipped dedup_set_def)
      with Some True show ?thesis by (simp add: phase_b_of_def server_apply_def)
    next
      case False
      show ?thesis
      proof (cases "1 < length (blessed_copies_of bp g)")
        case few: False
        have "after_run plist g = map (demoted bp) g"
          by (rule after_run_few [OF assms(1) Some False few])
        moreover have "dedup_set plist (map (demoted bp) g) = ([], None)"
          by (rule dedup_set_demoted [OF Some few])
        moreover have "phase_b_of plist g = []"
          using Some False by (simp add: phase_b_of_def phase_b_few [OF few])
        ultimately show ?thesis by (simp add: server_apply_def)
      next
        case many: True
        from phase_b_many [OF many blessed_ok [OF ok]] obtain k where
          k: "k \<in> set (blessed_copies_of bp g)" "best_copy (blessed_copies_of bp g) = Inr k"
             "phase_b bp g = (phase_b_calls k g, None)" by blast
        have kg: "k \<in> set g" using k(1) by (simp add: blessed_copies_of_def)
        have dg: "distinct g" using assms(1) by (simp add: distinct_map)
        have oth: "filter (\<lambda>b. b \<noteq> k) g \<noteq> []"
          using other_member [OF dg, of "\<lambda>ass. pfx (originalPath ass) = bp" k] many
          by (simp add: blessed_copies_of_def)
        have a: "after_run plist g = map (converged k) g"
          by (rule after_run_many [OF assms(1) Some False many k(2)])
        have b: "dedup_set plist (map (converged k) g) = (phase_b_calls k g, None)"
          by (rule dedup_set_converged [OF Some False many k(2)])
        have c: "phase_b_of plist g = phase_b_calls k g"
          using Some False k(3) by (simp add: phase_b_of_def)
        have d: "server_apply (phase_b_calls k g) (map (converged k) g) = map (converged k) g"
          by (rule server_apply_converged [OF assms(1) kg oth])
        show ?thesis unfolding a c using b d by simp
      qed
    qed
  qed
  then show "dedup_set plist (after_run plist g) = (phase_b_of plist g, None)"
    and "server_apply (phase_b_of plist g) (after_run plist g) = after_run plist g" by simp_all
qed

lemma phase_a_ids: "c \<in> set (phase_a bp g) \<Longrightarrow> call_ids c \<subseteq> asset_id ` set g"
  by (auto simp: phase_a_def Let_def call_ids_def split: if_splits)

lemma phase_b_calls_ids:
  "k \<in> set g \<Longrightarrow> c \<in> set (phase_b_calls k g) \<Longrightarrow> call_ids c \<subseteq> asset_id ` set g"
  by (auto simp: phase_b_calls_def Let_def call_ids_def split: if_splits)

lemma dedup_set_ids:
  assumes "c \<in> set (fst (dedup_set plist g))"
  shows "call_ids c \<subseteq> asset_id ` set g"
proof (cases "find_blessed plist g")
  case None
  with assms show ?thesis by (simp add: dedup_set_def)
next
  case (Some bp)
  show ?thesis
  proof (cases "bp = []")
    case True
    with Some assms show ?thesis by (simp add: dedup_set_def)
  next
    case False
    obtain cs r where p: "phase_b bp g = (cs, r)" by (cases "phase_b bp g")
    with Some False assms have "c \<in> set (phase_a bp g) \<or> c \<in> set (fst (phase_b bp g))"
      by (simp add: dedup_set_def)
    then show ?thesis using phase_a_ids phase_b_ids by blast
  qed
qed

lemma fold_update_untouched:
  assumes "\<forall>c\<in>set cs. asset_id a \<notin> call_ids c"
  shows "fold update_asset cs a = a"
  using assms
proof (induction cs)
  case Nil
  show ?case by simp
next
  case (Cons c cs)
  have "update_asset c a = a"
    using Cons.prems by (cases c) (simp add: update_asset_def call_ids_def)
  with Cons show ?case by simp
qed

lemma fold_update_id: "asset_id (fold update_asset cs a) = asset_id a"
  by (induction cs arbitrary: a) (simp_all add: update_asset_fields)

lemma server_apply_ids: "map asset_id (server_apply cs g) = map asset_id g"
  by (simp add: server_apply_def fold_update_id)

lemma fold_update_exif: "exifInfo (fold update_asset cs a) = exifInfo a"
  by (induction cs arbitrary: a) (simp_all add: update_asset_fields)

lemma server_apply_ok: "list_all exif_ok g \<Longrightarrow> list_all exif_ok (server_apply cs g)"
  by (simp add: server_apply_def list_all_iff exif_ok_eq [OF fold_update_exif])

text \<open>The requests of a list leave an asset with the visibility the last of them that
  names it sets: made a second time, they change nothing.\<close>

lemma fold_update_last:
  "fold update_asset cs a =
     (case last_visibility cs (asset_id a) of None \<Rightarrow> a | Some v \<Rightarrow> a\<lparr>visibility := v\<rparr>)"
proof (induction cs arbitrary: a)
  case Nil
  show ?case by simp
next
  case (Cons c cs)
  obtain ids v where c: "c = UpdateAssets ids v" by (cases c)
  have i: "asset_id (update_asset c a) = asset_id a" by (rule update_asset_fields)
  have "fold update_asset (c # cs) a = fold update_asset cs (update_asset c a)" by simp
  also have "\<dots> = (case last_visibility cs (asset_id a) of
                      None \<Rightarrow> update_asset c a
                    | Some w \<Rightarrow> (update_asset c a)\<lparr>visibility := w\<rparr>)"
    by (simp only: Cons [of "update_asset c a"] i)
  also have "\<dots> = (case last_visibility (c # cs) (asset_id a) of
                      None \<Rightarrow> a | Some w \<Rightarrow> a\<lparr>visibility := w\<rparr>)"
  proof (cases "last_visibility cs (asset_id a)")
    case None
    then show ?thesis
      by (cases "asset_id a \<in> set ids") (simp_all add: c update_asset_miss update_asset_hit)
  next
    case (Some w)
    then show ?thesis
      by (cases "asset_id a \<in> set ids") (simp_all add: c update_asset_miss update_asset_hit)
  qed
  finally show ?case .
qed

lemma fold_update_twice:
  "fold update_asset cs (fold update_asset cs a) = fold update_asset cs a"
proof -
  have "fold update_asset cs (fold update_asset cs a) =
     (case last_visibility cs (asset_id a) of
        None \<Rightarrow> fold update_asset cs a
      | Some v \<Rightarrow> (fold update_asset cs a)\<lparr>visibility := v\<rparr>)"
    using fold_update_last [of cs "fold update_asset cs a"] by (simp add: fold_update_id)
  then show ?thesis
    by (cases "last_visibility cs (asset_id a)") (simp_all add: fold_update_last [of cs a])
qed

lemma server_apply_twice: "server_apply cs (server_apply cs g) = server_apply cs g"
  by (simp add: server_apply_def fold_update_twice)

lemma server_apply_dups_twice:
  "server_apply_dups cs (server_apply_dups cs dups) = server_apply_dups cs dups"
  by (simp add: server_apply_dups_def server_apply_twice)

lemma server_apply_local:
  assumes "\<forall>c\<in>set pre. call_ids c \<inter> asset_id ` set g = {}"
    and "\<forall>c\<in>set post. call_ids c \<inter> asset_id ` set g = {}"
  shows "server_apply (pre @ own @ post) g = server_apply own g"
proof -
  have "\<And>a. a \<in> set g \<Longrightarrow> fold update_asset (pre @ own @ post) a = fold update_asset own a"
  proof -
    fix a assume a: "a \<in> set g"
    have 1: "fold update_asset pre a = a"
      by (rule fold_update_untouched) (use assms(1) a in auto)
    have "\<forall>c\<in>set post. asset_id (fold update_asset own a) \<notin> call_ids c"
      using assms(2) a by (auto simp: fold_update_id)
    then have 2: "fold update_asset post (fold update_asset own a) = fold update_asset own a"
      by (rule fold_update_untouched)
    show "fold update_asset (pre @ own @ post) a = fold update_asset own a"
      by (simp add: 1 2)
  qed
  then show ?thesis by (simp add: server_apply_def)
qed

lemma run_locality:
  assumes "distinct (map asset_id (concat gs))"
    and "\<And>g c. g \<in> set gs \<Longrightarrow> c \<in> set (F g) \<Longrightarrow> call_ids c \<subseteq> asset_id ` set g"
  shows "map (server_apply (concat (map F gs))) gs = map (\<lambda>g. server_apply (F g) g) gs"
proof (rule map_cong [OF refl])
  fix g assume "g \<in> set gs"
  then obtain pre post where gs: "gs = pre @ g # post" by (auto dest: split_list)
  have d: "distinct (map asset_id (concat pre) @ map asset_id g @ map asset_id (concat post))"
    using assms(1) unfolding gs by simp
  have dpre: "asset_id ` set (concat pre) \<inter> asset_id ` set g = {}"
    using d unfolding distinct_append set_append set_map by blast
  have dpost: "asset_id ` set (concat post) \<inter> asset_id ` set g = {}"
    using d unfolding distinct_append set_append set_map by blast
  have 1: "\<forall>c\<in>set (concat (map F pre)). call_ids c \<inter> asset_id ` set g = {}"
  proof
    fix c assume "c \<in> set (concat (map F pre))"
    then obtain h where h: "h \<in> set pre" "c \<in> set (F h)" by auto
    then have "call_ids c \<subseteq> asset_id ` set h" using assms(2) [of h c] gs by simp
    moreover have "asset_id ` set h \<subseteq> asset_id ` set (concat pre)" using h(1) by auto
    ultimately show "call_ids c \<inter> asset_id ` set g = {}" using dpre by blast
  qed
  have 2: "\<forall>c\<in>set (concat (map F post)). call_ids c \<inter> asset_id ` set g = {}"
  proof
    fix c assume "c \<in> set (concat (map F post))"
    then obtain h where h: "h \<in> set post" "c \<in> set (F h)" by auto
    then have "call_ids c \<subseteq> asset_id ` set h" using assms(2) [of h c] gs by simp
    moreover have "asset_id ` set h \<subseteq> asset_id ` set (concat post)" using h(1) by auto
    ultimately show "call_ids c \<inter> asset_id ` set g = {}" using dpost by blast
  qed
  have "concat (map F gs) = concat (map F pre) @ F g @ concat (map F post)"
    unfolding gs by simp
  then show "server_apply (concat (map F gs)) g = server_apply (F g) g"
    using server_apply_local [OF 1 2] by simp
qed

lemma distinct_group:
  assumes "distinct (map asset_id (concat gs))" and "g \<in> set gs"
  shows "distinct (map asset_id g)"
proof -
  from assms(2) obtain pre post where "gs = pre @ g # post" by (auto dest: split_list)
  with assms(1) show ?thesis by simp
qed

lemma first_run_state:
  assumes "distinct (map asset_id (concat gs))" and ok: "\<forall>g\<in>set gs. list_all exif_ok g"
  shows "map (server_apply (fst (dedup_loop plist gs))) gs = map (after_run plist) gs"
proof -
  have "map (server_apply (concat (map (\<lambda>g. fst (dedup_set plist g)) gs))) gs
      = map (\<lambda>g. server_apply (fst (dedup_set plist g)) g) gs"
    by (rule run_locality [OF assms(1)]) (rule dedup_set_ids)
  then show ?thesis by (simp add: dedup_loop_concat [OF ok] after_run_def)
qed

lemma after_run_ok: "list_all exif_ok g \<Longrightarrow> list_all exif_ok (after_run plist g)"
  by (simp add: after_run_def server_apply_ok)

lemma after_run_ids: "map asset_id (after_run plist g) = map asset_id g"
  by (simp add: after_run_def server_apply_ids)

lemma concat_after_run_ids:
  "map asset_id (concat (map (after_run plist) gs)) = map asset_id (concat gs)"
  by (induction gs) (simp_all add: after_run_ids)

lemma second_run_calls:
  assumes "distinct (map asset_id (concat gs))" and ok: "\<forall>g\<in>set gs. list_all exif_ok g"
  shows "dedup_loop plist (map (after_run plist) gs)
           = (concat (map (phase_b_of plist) gs), Inr ())"
proof -
  have eq: "map (\<lambda>g. fst (dedup_set plist (after_run plist g))) gs = map (phase_b_of plist) gs"
  proof (rule map_cong [OF refl])
    fix g assume g: "g \<in> set gs"
    then have "distinct (map asset_id g)" by (rule distinct_group [OF assms(1)])
    moreover have "list_all exif_ok g" using ok g by simp
    ultimately show "fst (dedup_set plist (after_run plist g)) = phase_b_of plist g"
      by (simp add: second_run_group(1))
  qed
  have ok': "\<forall>g\<in>set (map (after_run plist) gs). list_all exif_ok g"
    using ok by (auto intro: after_run_ok)
  show ?thesis by (simp only: dedup_loop_concat [OF ok'] map_map o_def eq)
qed

lemma second_run_state:
  assumes "distinct (map asset_id (concat gs))" and ok: "\<forall>g\<in>set gs. list_all exif_ok g"
  shows "map (server_apply (concat (map (phase_b_of plist) gs))) (map (after_run plist) gs)
           = map (after_run plist) gs"
proof -
  let ?gs = "map (after_run plist) gs"
  let ?F = "\<lambda>g. fst (dedup_set plist g)"
  have d: "distinct (map asset_id (concat ?gs))"
    using assms(1) by (simp only: concat_after_run_ids)
  have ok': "\<forall>g\<in>set ?gs. list_all exif_ok g"
    using ok by (auto intro: after_run_ok)
  have calls: "concat (map ?F ?gs) = concat (map (phase_b_of plist) gs)"
    using second_run_calls [OF assms, of plist] by (simp add: dedup_loop_concat [OF ok'])
  have "map (server_apply (concat (map ?F ?gs))) ?gs = map (\<lambda>g. server_apply (?F g) g) ?gs"
    by (rule run_locality [OF d]) (rule dedup_set_ids)
  also have "\<dots> = ?gs"
  proof -
    have "\<And>g. g \<in> set gs \<Longrightarrow>
        server_apply (?F (after_run plist g)) (after_run plist g) = after_run plist g"
    proof -
      fix g assume g: "g \<in> set gs"
      then have dg: "distinct (map asset_id g)" by (rule distinct_group [OF assms(1)])
      have og: "list_all exif_ok g" using ok g by simp
      show "server_apply (?F (after_run plist g)) (after_run plist g) = after_run plist g"
        by (simp add: second_run_group [OF dg og])
    qed
    then show ?thesis by (simp add: map_idI)
  qed
  finally show ?thesis unfolding calls .
qed

lemma server_apply_dups_assets:
  "map assets (server_apply_dups cs dups) = map (server_apply cs) (map assets dups)"
  by (simp add: server_apply_dups_def)

lemma server_apply_dups_eqI:
  assumes "map (server_apply cs) (map assets dups) = map assets dups"
  shows "server_apply_dups cs dups = dups"
proof -
  from assms have "map (\<lambda>d. server_apply cs (assets d)) dups = map assets dups"
    by (simp only: map_map o_def)
  then have "\<forall>d\<in>set dups. server_apply cs (assets d) = assets d"
    by (simp only: map_eq_conv)
  then show ?thesis by (simp add: server_apply_dups_def map_idI)
qed

lemma first_run_dups:
  assumes "distinct (map asset_id (concat (map assets dups)))"
    and ok: "\<forall>d\<in>set dups. list_all exif_ok (assets d)"
  shows "map assets (server_apply_dups (fst (dedup plist dups)) dups)
           = map (after_run plist) (map assets dups)"
  unfolding server_apply_dups_assets dedup_def
  by (rule first_run_state [OF assms(1)]) (use ok in simp)

lemma dedup_returns:
  assumes "\<forall>d\<in>set dups. list_all exif_ok (assets d)"
  shows "snd (dedup plist dups) = Inr ()"
proof -
  have "\<forall>g\<in>set (map assets dups). list_all exif_ok g" using assms by simp
  from dedup_loop_concat [OF this] show ?thesis by (simp add: dedup_def)
qed

lemma second_run_dups:
  assumes "distinct (map asset_id (concat (map assets dups)))"
    and ok: "\<forall>d\<in>set dups. list_all exif_ok (assets d)"
  shows "dedup plist (server_apply_dups (fst (dedup plist dups)) dups)
           = (concat (map (\<lambda>d. phase_b_of plist (assets d)) dups), Inr ())"
    and "server_apply_dups (concat (map (\<lambda>d. phase_b_of plist (assets d)) dups))
             (server_apply_dups (fst (dedup plist dups)) dups)
           = server_apply_dups (fst (dedup plist dups)) dups"
proof -
  let ?dups1 = "server_apply_dups (fst (dedup plist dups)) dups"
  let ?gs = "map assets dups"
  have ok': "\<forall>g\<in>set ?gs. list_all exif_ok g" using ok by simp
  have a: "map assets ?dups1 = map (after_run plist) ?gs" by (rule first_run_dups [OF assms])
  have c: "concat (map (phase_b_of plist) ?gs) = concat (map (\<lambda>d. phase_b_of plist (assets d)) dups)"
    by (simp only: map_map o_def)
  have "dedup plist ?dups1 = dedup_loop plist (map assets ?dups1)" by (rule dedup_def)
  also have "\<dots> = dedup_loop plist (map (after_run plist) ?gs)" by (simp only: a)
  also have "\<dots> = (concat (map (phase_b_of plist) ?gs), Inr ())"
    by (rule second_run_calls [OF assms(1) ok'])
  also have "\<dots> = (concat (map (\<lambda>d. phase_b_of plist (assets d)) dups), Inr ())"
    by (simp only: c)
  finally show "dedup plist ?dups1
      = (concat (map (\<lambda>d. phase_b_of plist (assets d)) dups), Inr ())" .
  have "map (server_apply (concat (map (phase_b_of plist) ?gs))) (map assets ?dups1)
      = map assets ?dups1"
    unfolding a by (rule second_run_state [OF assms(1) ok'])
  then show "server_apply_dups (concat (map (\<lambda>d. phase_b_of plist (assets d)) dups)) ?dups1 = ?dups1"
    unfolding c by (rule server_apply_dups_eqI)
qed

lemma phase_b_of_many:
  assumes "distinct (map asset_id g)" and "list_all exif_ok g"
    and "find_blessed plist g = Some bp" and "bp \<noteq> []"
    and "1 < length (blessed_copies_of bp g)"
  shows "\<exists>k\<in>set (blessed_copies_of bp g).
           phase_b_of plist g =
             [UpdateAssets (map asset_id (filter (\<lambda>ass. ass \<noteq> k) g)) ''archive'',
              UpdateAssets [asset_id k] ''timeline'']"
proof -
  have dg: "distinct g" using assms(1) by (simp add: distinct_map)
  from phase_b_many [OF assms(5) blessed_ok [OF assms(2)]] obtain k where
    k: "k \<in> set (blessed_copies_of bp g)" "phase_b bp g = (phase_b_calls k g, None)" by blast
  have "filter (\<lambda>a. a \<noteq> k) g \<noteq> []"
    using other_member [OF dg, of "\<lambda>ass. pfx (originalPath ass) = bp" k] assms(5)
    by (simp add: blessed_copies_of_def)
  from phase_b_calls_some [OF this] k(2) assms(3,4)
  have "phase_b_of plist g =
             [UpdateAssets (map asset_id (filter (\<lambda>ass. ass \<noteq> k) g)) ''archive'',
              UpdateAssets [asset_id k] ''timeline'']"
    by (simp add: phase_b_of_def)
  with k(1) show ?thesis by blast
qed

subsection \<open>The object and its cache\<close>

lemma dedup_call_fresh:
  "dedup_call plist cat fresh_api =
     (dedup plist (cat_duplicates cat),
      \<lparr>dup_cache = cat_duplicates cat,
       dups_by_duplicateId = py_dict (map (\<lambda>d. (dup_duplicateId d, d)) (cat_duplicates cat))\<rparr>,
      [GetDuplicates])"
  by (simp add: dedup_call_def dups_all_def load_dups_def fresh_api_def)

lemma dedup_call_cached:
  assumes "dup_cache st \<noteq> []"
  shows "dedup_call plist cat st = (dedup plist (dup_cache st), st, [])"
  using assms by (simp add: dedup_call_def dups_all_def load_dups_def)

lemma first_run_sel:
  "fst (first_run plist cat) = dedup plist (cat_duplicates cat)"
  "dup_cache (caches_after_first plist cat) = cat_duplicates cat"
  "cat_duplicates (catalog_after_first plist cat)
     = server_apply_dups (fst (dedup plist (cat_duplicates cat))) (cat_duplicates cat)"
  by (simp_all add: first_run_def caches_after_first_def catalog_after_first_def
      catalog_after_def dedup_call_fresh)

lemma catalog_after_eqI:
  "server_apply_dups cs (cat_duplicates cat) = cat_duplicates cat \<Longrightarrow> catalog_after cs cat = cat"
  by (simp add: catalog_after_def)

lemma catalog_after_twice: "catalog_after cs (catalog_after cs cat) = catalog_after cs cat"
  by (simp add: catalog_after_def server_apply_dups_twice)

lemma same_object_run:
  "fst (dedup_call plist (catalog_after_first plist cat) (caches_after_first plist cat))
     = fst (first_run plist cat)"
proof (cases "cat_duplicates cat = []")
  case True
  then have "dup_cache (caches_after_first plist cat) = []" by (simp add: first_run_sel)
  then have "fst (dedup_call plist (catalog_after_first plist cat) (caches_after_first plist cat))
      = dedup plist (cat_duplicates (catalog_after_first plist cat))"
    by (simp add: dedup_call_def dups_all_def load_dups_def)
  also have "\<dots> = dedup plist []" using True by (simp add: first_run_sel server_apply_dups_def)
  finally show ?thesis using True by (simp add: first_run_sel)
next
  case False
  then have "dup_cache (caches_after_first plist cat) \<noteq> []" by (simp add: first_run_sel)
  from dedup_call_cached [OF this] show ?thesis by (simp add: first_run_sel)
qed

subsection \<open>The example catalogs\<close>

lemma wedding_catalog_dups: "cat_duplicates wedding_catalog = [wedding_set]"
  by (simp add: wedding_catalog_def)

lemma mixed_catalog_dups: "cat_duplicates mixed_catalog = [wedding_set, single_set, unlisted_set]"
  by (simp add: mixed_catalog_def)

lemma distinct_mixed:
  "distinct (map asset_id (concat (map assets (cat_duplicates mixed_catalog))))"
  by (simp add: mixed_catalog_dups wedding_set_def single_set_def unlisted_set_def
      two_copies_def photo_sel)

lemma ok_mixed: "list_all (\<lambda>d. list_all exif_ok (assets d)) (cat_duplicates mixed_catalog)"
  by (simp add: mixed_catalog_dups wedding_set_def single_set_def unlisted_set_def
      two_copies_def photo_ok)

lemma find_blessed_wedding_set:
  "find_blessed path_prefix_priority_list (assets wedding_set) = Some ''/photos/wedding''"
  unfolding wedding_set_def two_copies_def
  by (simp add: find_blessed_wedding photo_sel pfx_paths)

lemma find_blessed_single_set:
  "find_blessed path_prefix_priority_list (assets single_set) = Some ''/photos/wedding''"
  unfolding single_set_def
  by (simp add: find_blessed_wedding photo_sel pfx_paths)

lemma find_blessed_unlisted_set:
  "find_blessed path_prefix_priority_list (assets unlisted_set) = None"
  unfolding find_blessed_None using unlisted_set_unlisted by (simp only: list_all_iff)

lemma many_wedding_set:
  "1 < length (blessed_copies_of ''/photos/wedding'' (assets wedding_set))"
  by (simp add: wedding_set_def blessed_two) (simp add: two_copies_def)

lemma few_single_set:
  "\<not> 1 < length (blessed_copies_of ''/photos/wedding'' (assets single_set))"
  by (simp add: single_set_def blessed_copies_of_def photo_sel pfx_paths)

text \<open>
  C2 (as amended). When no identifier occurs twice among the assets of the duplicate sets
  and the scorer can read every asset, the first call of dedup on a new object returns,
  and a second call, on the catalog as the first left it, changes no visibility but does
  make requests. On a new object, which reads the duplicates again, it makes for every
  group exactly the requests of the second part of the loop body again: none for a group
  that is skipped or has at most one copy under the blessed prefix, and for a group with
  more than one the request that archives every member other than the keeper and the
  request that puts the keeper on the timeline. On the same object, whose dups answers
  from its cache, it makes every request of the first call again, those of the first part
  included.
\<close>

theorem dedup_second_run:
  assumes "distinct (map asset_id (concat (map assets (cat_duplicates cat))))"
    and "\<forall>d\<in>set (cat_duplicates cat). list_all exif_ok (assets d)"
  shows "snd (fst (first_run plist cat)) = Inr ()
       \<and> fst (dedup_call plist (catalog_after_first plist cat) fresh_api)
           = (concat (map (\<lambda>d. phase_b_of plist (assets d)) (cat_duplicates cat)), Inr ())
       \<and> catalog_after (concat (map (\<lambda>d. phase_b_of plist (assets d)) (cat_duplicates cat)))
             (catalog_after_first plist cat)
           = catalog_after_first plist cat
       \<and> (\<forall>d\<in>set (cat_duplicates cat). \<forall>bp. find_blessed plist (assets d) = Some bp
             \<longrightarrow> \<not> 1 < length (blessed_copies_of bp (assets d))
             \<longrightarrow> phase_b_of plist (assets d) = [])
       \<and> (\<forall>d\<in>set (cat_duplicates cat). find_blessed plist (assets d) = None
             \<longrightarrow> phase_b_of plist (assets d) = [])
       \<and> (\<forall>d\<in>set (cat_duplicates cat). \<forall>bp. find_blessed plist (assets d) = Some bp
             \<longrightarrow> bp \<noteq> [] \<longrightarrow> 1 < length (blessed_copies_of bp (assets d))
             \<longrightarrow> (\<exists>k\<in>set (blessed_copies_of bp (assets d)).
                    phase_b_of plist (assets d) =
                      [UpdateAssets (map asset_id (filter (\<lambda>ass. ass \<noteq> k) (assets d))) ''archive'',
                       UpdateAssets [asset_id k] ''timeline'']))
       \<and> fst (dedup_call plist (catalog_after_first plist cat) (caches_after_first plist cat))
           = fst (first_run plist cat)
       \<and> catalog_after (fst (fst (first_run plist cat))) (catalog_after_first plist cat)
           = catalog_after_first plist cat"
proof (intro conjI)
  let ?dups = "cat_duplicates cat"
  let ?again = "concat (map (\<lambda>d. phase_b_of plist (assets d)) ?dups)"
  show "snd (fst (first_run plist cat)) = Inr ()"
    by (simp add: first_run_sel dedup_returns [OF assms(2)])
  have "fst (dedup_call plist (catalog_after_first plist cat) fresh_api)
      = dedup plist (server_apply_dups (fst (dedup plist ?dups)) ?dups)"
    by (simp add: dedup_call_fresh first_run_sel)
  also have "\<dots> = (?again, Inr ())" by (rule second_run_dups(1) [OF assms])
  finally show "fst (dedup_call plist (catalog_after_first plist cat) fresh_api)
      = (?again, Inr ())" .
  show "catalog_after ?again (catalog_after_first plist cat) = catalog_after_first plist cat"
    by (rule catalog_after_eqI) (simp only: first_run_sel second_run_dups(2) [OF assms])
  show "\<forall>d\<in>set ?dups. \<forall>bp. find_blessed plist (assets d) = Some bp
             \<longrightarrow> \<not> 1 < length (blessed_copies_of bp (assets d))
             \<longrightarrow> phase_b_of plist (assets d) = []"
    by (simp add: phase_b_of_def phase_b_few)
  show "\<forall>d\<in>set ?dups. find_blessed plist (assets d) = None
             \<longrightarrow> phase_b_of plist (assets d) = []"
    by (simp add: phase_b_of_def)
  show "\<forall>d\<in>set ?dups. \<forall>bp. find_blessed plist (assets d) = Some bp
             \<longrightarrow> bp \<noteq> [] \<longrightarrow> 1 < length (blessed_copies_of bp (assets d))
             \<longrightarrow> (\<exists>k\<in>set (blessed_copies_of bp (assets d)).
                    phase_b_of plist (assets d) =
                      [UpdateAssets (map asset_id (filter (\<lambda>ass. ass \<noteq> k) (assets d))) ''archive'',
                       UpdateAssets [asset_id k] ''timeline''])"
  proof (intro ballI allI impI)
    fix d bp
    assume d: "d \<in> set ?dups" and fb: "find_blessed plist (assets d) = Some bp"
      and ne: "bp \<noteq> []" and many: "1 < length (blessed_copies_of bp (assets d))"
    have "assets d \<in> set (map assets ?dups)" using d by simp
    then have dg: "distinct (map asset_id (assets d))" by (rule distinct_group [OF assms(1)])
    have og: "list_all exif_ok (assets d)" using assms(2) d by simp
    show "\<exists>k\<in>set (blessed_copies_of bp (assets d)).
                    phase_b_of plist (assets d) =
                      [UpdateAssets (map asset_id (filter (\<lambda>ass. ass \<noteq> k) (assets d))) ''archive'',
                       UpdateAssets [asset_id k] ''timeline'']"
      by (rule phase_b_of_many [OF dg og fb ne many])
  qed
  show "fst (dedup_call plist (catalog_after_first plist cat) (caches_after_first plist cat))
           = fst (first_run plist cat)"
    by (rule same_object_run)
  show "catalog_after (fst (fst (first_run plist cat))) (catalog_after_first plist cat)
           = catalog_after_first plist cat"
    unfolding catalog_after_first_def by (rule catalog_after_twice)
qed

theorem dedup_second_run_witness:
  "distinct (map asset_id (concat (map assets (cat_duplicates mixed_catalog))))
   \<and> list_all (\<lambda>d. list_all exif_ok (assets d)) (cat_duplicates mixed_catalog)
   \<and> snd (fst (first_run path_prefix_priority_list mixed_catalog)) = Inr ()
   \<and> fst (dedup_call path_prefix_priority_list
             (catalog_after_first path_prefix_priority_list mixed_catalog) fresh_api)
       = (concat (map (\<lambda>d. phase_b_of path_prefix_priority_list (assets d))
                    (cat_duplicates mixed_catalog)), Inr ())
   \<and> catalog_after (concat (map (\<lambda>d. phase_b_of path_prefix_priority_list (assets d))
                               (cat_duplicates mixed_catalog)))
         (catalog_after_first path_prefix_priority_list mixed_catalog)
       = catalog_after_first path_prefix_priority_list mixed_catalog
   \<and> single_set \<in> set (cat_duplicates mixed_catalog)
   \<and> find_blessed path_prefix_priority_list (assets single_set) = Some ''/photos/wedding''
   \<and> \<not> 1 < length (blessed_copies_of ''/photos/wedding'' (assets single_set))
   \<and> phase_b_of path_prefix_priority_list (assets single_set) = []
   \<and> unlisted_set \<in> set (cat_duplicates mixed_catalog)
   \<and> find_blessed path_prefix_priority_list (assets unlisted_set) = None
   \<and> phase_b_of path_prefix_priority_list (assets unlisted_set) = []
   \<and> wedding_set \<in> set (cat_duplicates mixed_catalog)
   \<and> find_blessed path_prefix_priority_list (assets wedding_set) = Some ''/photos/wedding''
   \<and> ''/photos/wedding'' \<noteq> []
   \<and> 1 < length (blessed_copies_of ''/photos/wedding'' (assets wedding_set))
   \<and> (\<exists>k\<in>set (blessed_copies_of ''/photos/wedding'' (assets wedding_set)).
         phase_b_of path_prefix_priority_list (assets wedding_set) =
           [UpdateAssets (map asset_id (filter (\<lambda>ass. ass \<noteq> k) (assets wedding_set))) ''archive'',
            UpdateAssets [asset_id k] ''timeline''])
   \<and> fst (dedup_call path_prefix_priority_list
             (catalog_after_first path_prefix_priority_list mixed_catalog)
             (caches_after_first path_prefix_priority_list mixed_catalog))
       = fst (first_run path_prefix_priority_list mixed_catalog)
   \<and> catalog_after (fst (fst (first_run path_prefix_priority_list mixed_catalog)))
         (catalog_after_first path_prefix_priority_list mixed_catalog)
       = catalog_after_first path_prefix_priority_list mixed_catalog"
proof -
  have h2: "\<forall>d\<in>set (cat_duplicates mixed_catalog). list_all exif_ok (assets d)"
    using ok_mixed by (simp only: list_all_iff)
  note T = dedup_second_run [OF distinct_mixed h2, of path_prefix_priority_list]
  note c1 = T [THEN conjunct1]
  note c2 = T [THEN conjunct2, THEN conjunct1]
  note c3 = T [THEN conjunct2, THEN conjunct2, THEN conjunct1]
  note c4 = T [THEN conjunct2, THEN conjunct2, THEN conjunct2, THEN conjunct1]
  note c5 = T [THEN conjunct2, THEN conjunct2, THEN conjunct2, THEN conjunct2, THEN conjunct1]
  note c6 = T [THEN conjunct2, THEN conjunct2, THEN conjunct2, THEN conjunct2, THEN conjunct2,
               THEN conjunct1]
  note c7 = T [THEN conjunct2, THEN conjunct2, THEN conjunct2, THEN conjunct2, THEN conjunct2,
               THEN conjunct2, THEN conjunct1]
  note c8 = T [THEN conjunct2, THEN conjunct2, THEN conjunct2, THEN conjunct2, THEN conjunct2,
               THEN conjunct2, THEN conjunct2]
  have m1: "single_set \<in> set (cat_duplicates mixed_catalog)"
    and m2: "unlisted_set \<in> set (cat_duplicates mixed_catalog)"
    and m3: "wedding_set \<in> set (cat_duplicates mixed_catalog)"
    by (simp_all add: mixed_catalog_dups)
  have ne: "''/photos/wedding'' \<noteq> []" by simp
  note s = c4 [rule_format, OF m1 find_blessed_single_set few_single_set]
  note u = c5 [rule_format, OF m2 find_blessed_unlisted_set]
  note w = c6 [rule_format, OF m3 find_blessed_wedding_set ne many_wedding_set]
  from distinct_mixed ok_mixed c1 c2 c3 m1 find_blessed_single_set few_single_set s
    m2 find_blessed_unlisted_set u m3 find_blessed_wedding_set ne many_wedding_set w c7 c8
  show ?thesis by (intro conjI)
qed

text \<open>
  C2, counterexample. A group of two copies under the blessed prefix, the keeper on the
  timeline and the other archived: the first call makes two requests and changes nothing,
  and the next call makes the same two requests, on a new object and on the same one.
\<close>

theorem dedup_second_run_counterexample:
  "fst (first_run path_prefix_priority_list wedding_catalog)
     = ([UpdateAssets [''A''] ''archive'', UpdateAssets [''B''] ''timeline''], Inr ())
   \<and> catalog_after_first path_prefix_priority_list wedding_catalog = wedding_catalog
   \<and> fst (dedup_call path_prefix_priority_list
            (catalog_after_first path_prefix_priority_list wedding_catalog) fresh_api)
     = ([UpdateAssets [''A''] ''archive'', UpdateAssets [''B''] ''timeline''], Inr ())
   \<and> fst (dedup_call path_prefix_priority_list
            (catalog_after_first path_prefix_priority_list wedding_catalog)
            (caches_after_first path_prefix_priority_list wedding_catalog))
     = ([UpdateAssets [''A''] ''archive'', UpdateAssets [''B''] ''timeline''], Inr ())"
proof -
  have d: "dedup path_prefix_priority_list [wedding_set]
     = ([UpdateAssets [''A''] ''archive'', UpdateAssets [''B''] ''timeline''], Inr ())"
    by (simp add: dedup_def wedding_set_def dedup_set_two)
  have r: "fst (first_run path_prefix_priority_list wedding_catalog)
     = ([UpdateAssets [''A''] ''archive'', UpdateAssets [''B''] ''timeline''], Inr ())"
    by (simp only: first_run_sel wedding_catalog_dups d)
  have s: "server_apply_dups [UpdateAssets [''A''] ''archive'', UpdateAssets [''B''] ''timeline'']
      [wedding_set] = [wedding_set]"
    by (simp add: server_apply_dups_def wedding_set_def server_apply_two)
  have c: "catalog_after_first path_prefix_priority_list wedding_catalog = wedding_catalog"
    unfolding catalog_after_first_def r
    by (rule catalog_after_eqI) (simp add: wedding_catalog_dups s)
  have f: "fst (dedup_call path_prefix_priority_list
            (catalog_after_first path_prefix_priority_list wedding_catalog) fresh_api)
     = ([UpdateAssets [''A''] ''archive'', UpdateAssets [''B''] ''timeline''], Inr ())"
    unfolding c using r by (simp only: first_run_def)
  have o: "fst (dedup_call path_prefix_priority_list
            (catalog_after_first path_prefix_priority_list wedding_catalog)
            (caches_after_first path_prefix_priority_list wedding_catalog))
     = ([UpdateAssets [''A''] ''archive'', UpdateAssets [''B''] ''timeline''], Inr ())"
    using same_object_run [of path_prefix_priority_list wedding_catalog] r by (simp only:)
  from r c f o show ?thesis by (intro conjI)
qed

subsection \<open>Where a run converges\<close>

lemma filter_eq_member:
  assumes "distinct g" and "k \<in> set g"
  shows "filter (\<lambda>a. a = k) g = [k]"
  using assms
proof (induction g)
  case Nil
  then show ?case by simp
next
  case (Cons x g)
  show ?case
  proof (cases "x = k")
    case True
    with Cons.prems have "k \<notin> set g" by simp
    then have "filter (\<lambda>a. a = k) g = []" by (auto simp: filter_empty_conv)
    with True show ?thesis by simp
  next
    case False
    with Cons show ?thesis by simp
  qed
qed

lemma converged_many_state:
  assumes "distinct g" and "k \<in> set g"
  shows "filter is_timeline (map (converged k) g) = [k\<lparr>visibility := ''timeline''\<rparr>]"
    and "\<forall>a\<in>set (map (converged k) g). a \<noteq> k\<lparr>visibility := ''timeline''\<rparr> \<longrightarrow> visibility a = ''archive''"
proof -
  have "filter is_timeline (map (converged k) g) = map (converged k) (filter (\<lambda>a. a = k) g)"
    by (simp add: filter_map o_def converged_fields)
  also have "\<dots> = [converged k k]" by (simp add: filter_eq_member [OF assms])
  finally show "filter is_timeline (map (converged k) g) = [k\<lparr>visibility := ''timeline''\<rparr>]"
    by (simp add: converged_def)
  show "\<forall>a\<in>set (map (converged k) g). a \<noteq> k\<lparr>visibility := ''timeline''\<rparr> \<longrightarrow> visibility a = ''archive''"
    by (auto simp: converged_def)
qed

lemma demoted_single_state:
  assumes "blessed_copies_of bp g = [b]" and "is_timeline b"
    and "\<forall>a\<in>set g. visibility a = ''timeline'' \<or> visibility a = ''archive''"
  shows "filter is_timeline (map (demoted bp) g) = [b\<lparr>visibility := ''timeline''\<rparr>]"
    and "\<forall>a\<in>set (map (demoted bp) g). a \<noteq> b\<lparr>visibility := ''timeline''\<rparr> \<longrightarrow> visibility a = ''archive''"
proof -
  have bb: "b\<lparr>visibility := ''timeline''\<rparr> = b" using assms(2) by (simp add: is_timeline_def)
  have pb: "pfx (originalPath b) = bp"
  proof -
    have "b \<in> set (blessed_copies_of bp g)" by (simp add: assms(1))
    then show ?thesis by (simp add: blessed_copies_of_def)
  qed
  have "filter is_timeline (map (demoted bp) g)
      = map (demoted bp) (filter (\<lambda>a. is_timeline a \<and> pfx (originalPath a) = bp) g)"
    by (simp add: filter_map o_def demoted_fields)
  also have "filter (\<lambda>a. is_timeline a \<and> pfx (originalPath a) = bp) g
      = filter is_timeline (blessed_copies_of bp g)"
    by (simp add: blessed_copies_of_def conj_commute)
  also have "\<dots> = [b]" by (simp add: assms(1,2))
  also have "map (demoted bp) [b] = [b]" using pb by (simp add: demoted_def)
  finally show "filter is_timeline (map (demoted bp) g) = [b\<lparr>visibility := ''timeline''\<rparr>]"
    by (simp add: bb)
  show "\<forall>a\<in>set (map (demoted bp) g). a \<noteq> b\<lparr>visibility := ''timeline''\<rparr> \<longrightarrow> visibility a = ''archive''"
  proof (intro ballI impI)
    fix a' assume a': "a' \<in> set (map (demoted bp) g)" and ne: "a' \<noteq> b\<lparr>visibility := ''timeline''\<rparr>"
    from a' obtain a where a: "a \<in> set g" "a' = demoted bp a" by auto
    show "visibility a' = ''archive''"
    proof (cases "is_timeline a \<and> pfx (originalPath a) \<noteq> bp")
      case True
      with a(2) show ?thesis by (simp add: demoted_def)
    next
      case False
      then have same: "a' = a" using a(2) by (auto simp: demoted_def)
      have "\<not> is_timeline a"
      proof
        assume t: "is_timeline a"
        with False have "pfx (originalPath a) = bp" by simp
        with a(1) have "a \<in> set (blessed_copies_of bp g)" by (simp add: blessed_copies_of_def)
        then have "a = b" by (simp add: assms(1))
        with ne same bb show False by simp
      qed
      with assms(3) a(1) same show ?thesis by (auto simp: is_timeline_def)
    qed
  qed
qed

lemma first_run_group:
  assumes "distinct (map asset_id (concat (map assets dups)))" and "d \<in> set dups"
    and ok: "\<forall>d\<in>set dups. list_all exif_ok (assets d)"
  shows "server_apply (fst (dedup plist dups)) (assets d) = after_run plist (assets d)"
proof -
  have "map (server_apply (fst (dedup_loop plist (map assets dups)))) (map assets dups)
      = map (after_run plist) (map assets dups)"
    by (rule first_run_state [OF assms(1)]) (use ok in simp)
  then have "map (\<lambda>d. server_apply (fst (dedup_loop plist (map assets dups))) (assets d)) dups
      = map (\<lambda>d. after_run plist (assets d)) dups"
    by (simp only: map_map o_def)
  then have "\<forall>d\<in>set dups. server_apply (fst (dedup_loop plist (map assets dups))) (assets d)
      = after_run plist (assets d)"
    by (simp only: map_eq_conv)
  with assms(2) show ?thesis by (simp add: dedup_def)
qed

text \<open>
  When the scorer can read every asset, a group with a blessed prefix ends the run with
  exactly one member on the timeline, a copy under the blessed prefix, and every other
  member archived, whenever it has several copies under the blessed prefix or its copy
  there is on the timeline.
\<close>

theorem dedup_converges:
  assumes "distinct (map asset_id (concat (map assets dups)))" and "d \<in> set dups"
    and "find_blessed plist (assets d) = Some bp" and "bp \<noteq> []"
    and "\<forall>a\<in>set (assets d). visibility a = ''timeline'' \<or> visibility a = ''archive''"
    and "1 < length (blessed_copies_of bp (assets d))
         \<or> (\<exists>b\<in>set (blessed_copies_of bp (assets d)). is_timeline b)"
    and ok: "\<forall>d\<in>set dups. list_all exif_ok (assets d)"
  shows "\<exists>k\<in>set (blessed_copies_of bp (assets d)).
           filter is_timeline (server_apply (fst (dedup plist dups)) (assets d))
             = [k\<lparr>visibility := ''timeline''\<rparr>]
         \<and> (\<forall>a\<in>set (server_apply (fst (dedup plist dups)) (assets d)).
               a \<noteq> k\<lparr>visibility := ''timeline''\<rparr> \<longrightarrow> visibility a = ''archive'')"
proof -
  let ?g = "assets d"
  have dg: "distinct (map asset_id ?g)"
    by (rule distinct_group [OF assms(1)]) (use assms(2) in simp)
  have dg': "distinct ?g" using dg by (simp add: distinct_map)
  have st: "server_apply (fst (dedup plist dups)) ?g = after_run plist ?g"
    by (rule first_run_group [OF assms(1,2) ok])
  show ?thesis
  proof (cases "1 < length (blessed_copies_of bp ?g)")
    case True
    have "list_all exif_ok ?g" using ok assms(2) by simp
    from phase_b_many [OF True blessed_ok [OF this]] obtain k where
      k: "k \<in> set (blessed_copies_of bp ?g)" "best_copy (blessed_copies_of bp ?g) = Inr k" by blast
    have kg: "k \<in> set ?g" using k(1) by (simp add: blessed_copies_of_def)
    have "after_run plist ?g = map (converged k) ?g"
      by (rule after_run_many [OF dg assms(3,4) True k(2)])
    with st converged_many_state [OF dg' kg] k(1) show ?thesis by auto
  next
    case False
    with assms(6) obtain b where b: "b \<in> set (blessed_copies_of bp ?g)" "is_timeline b" by blast
    have "length (blessed_copies_of bp ?g) = 1"
      using False b(1) by (cases "blessed_copies_of bp ?g") auto
    with b(1) have one: "blessed_copies_of bp ?g = [b]"
      by (cases "blessed_copies_of bp ?g") auto
    have "after_run plist ?g = map (demoted bp) ?g"
      by (rule after_run_few [OF dg assms(3,4) False])
    with st demoted_single_state [OF one b(2) assms(5)] b(1) show ?thesis by auto
  qed
qed

theorem dedup_converges_witness:
  "distinct (map asset_id (concat (map assets [wedding_set]))) \<and> wedding_set \<in> set [wedding_set]
   \<and> find_blessed path_prefix_priority_list (assets wedding_set) = Some ''/photos/wedding''
   \<and> ''/photos/wedding'' \<noteq> []
   \<and> list_all (\<lambda>a. visibility a = ''timeline'' \<or> visibility a = ''archive'') (assets wedding_set)
   \<and> 1 < length (blessed_copies_of ''/photos/wedding'' (assets wedding_set))
   \<and> list_all (\<lambda>d. list_all exif_ok (assets d)) [wedding_set]
   \<and> (\<exists>k\<in>set (blessed_copies_of ''/photos/wedding'' (assets wedding_set)).
         filter is_timeline
           (server_apply (fst (dedup path_prefix_priority_list [wedding_set])) (assets wedding_set))
           = [k\<lparr>visibility := ''timeline''\<rparr>]
       \<and> (\<forall>a\<in>set (server_apply (fst (dedup path_prefix_priority_list [wedding_set]))
                      (assets wedding_set)).
             a \<noteq> k\<lparr>visibility := ''timeline''\<rparr> \<longrightarrow> visibility a = ''archive''))"
proof -
  have h2: "wedding_set \<in> set [wedding_set]" by simp
  have h3: "find_blessed path_prefix_priority_list (assets wedding_set) = Some ''/photos/wedding''"
    unfolding wedding_set_def two_copies_def
    by (simp add: find_blessed_wedding photo_sel pfx_paths)
  have h4: "''/photos/wedding'' \<noteq> []" by simp
  have h5: "list_all (\<lambda>a. visibility a = ''timeline'' \<or> visibility a = ''archive'') (assets wedding_set)"
    by (simp add: wedding_set_def two_copies_def photo_sel)
  have h5': "\<forall>a\<in>set (assets wedding_set). visibility a = ''timeline'' \<or> visibility a = ''archive''"
    using h5 by (simp only: list_all_iff)
  have h6: "1 < length (blessed_copies_of ''/photos/wedding'' (assets wedding_set))"
    by (simp add: wedding_set_def blessed_two) (simp add: two_copies_def)
  have h7: "\<forall>d\<in>set [wedding_set]. list_all exif_ok (assets d)"
    using ok_wedding by (simp only: list_all_iff)
  from dedup_converges [OF distinct_wedding h2 h3 h4 h5' disjI1 [OF h6] h7]
    distinct_wedding h2 h3 h4 h5 h6 ok_wedding
  show ?thesis by (intro conjI)
qed


section \<open>The scorer on the copies of a group\<close>

lemma find_blessed_sized:
  "find_blessed path_prefix_priority_list sized_pair = Some ''/photos/wedding''"
  unfolding sized_pair_def by (rule find_blessed_wedding) (simp add: photo_sel pfx_paths)

lemma blessed_sized: "blessed_copies_of ''/photos/wedding'' sized_pair = sized_pair"
  by (simp add: blessed_copies_of_def sized_pair_def photo_sel pfx_paths)

lemma phase_a_sized: "phase_a ''/photos/wedding'' sized_pair = []"
  by (simp add: phase_a_def sized_pair_def photo_sel pfx_paths)

lemma phase_b_sized:
  "phase_b ''/photos/wedding'' sized_pair
     = ([UpdateAssets [''B''] ''archive'', UpdateAssets [''A''] ''timeline''], None)"
  unfolding phase_b_def blessed_sized Let_def best_copy_sized
  by (simp add: sized_pair_def phase_b_calls_def photo_neq photo_sel)

lemma dedup_sized:
  "dedup path_prefix_priority_list [\<lparr>dup_duplicateId = ''d1'', assets = sized_pair\<rparr>]
     = ([UpdateAssets [''B''] ''archive'', UpdateAssets [''A''] ''timeline''], Inr ())"
  by (simp add: dedup_def dedup_set_def find_blessed_sized phase_a_sized phase_b_sized)

lemma best_copy_unmeasured: "best_copy [unmeasured] = Inl TypeError"
  by (simp add: best_copy_def scores_of_def unmeasured_def asset_file_size_def asset_dims_def
      asset_width_def asset_height_def exif_get_def py_int_def)

lemma best_copy_null: "best_copy null_copies = Inl TypeError"
  by (simp add: best_copy_def scores_of_def null_copies_def unmeasured_def asset_file_size_def
      asset_dims_def asset_width_def asset_height_def exif_get_def py_int_def)

lemma find_blessed_null:
  "find_blessed path_prefix_priority_list null_copies = Some ''/photos/wedding''"
  unfolding null_copies_def by (rule find_blessed_wedding) (simp add: unmeasured_sel pfx_paths)

lemma phase_a_null: "phase_a ''/photos/wedding'' null_copies = []"
  by (simp add: phase_a_def null_copies_def photo_sel unmeasured_sel pfx_paths)

lemma phase_b_null: "phase_b ''/photos/wedding'' null_copies = ([], Some TypeError)"
  unfolding phase_b_def blessed_null Let_def best_copy_null
  by (simp add: null_copies_def)

lemma dedup_null:
  "dedup path_prefix_priority_list [\<lparr>dup_duplicateId = ''d1'', assets = null_copies\<rparr>]
     = ([], Inl TypeError)"
  by (simp add: dedup_def dedup_set_def find_blessed_null phase_a_null phase_b_null)

subsection \<open>The scores\<close>

text \<open>
  C5. The code reads the byte size under the key fileSizeInbyte, which the service does not
  send (its key is fileSizeInByte), so every candidate has the size 0 for the code and
  gets the 2 points. Of two copies under the blessed prefix with the same pixel area and
  the byte sizes 100 and 200, the first on the timeline, the code gives both the score 10
  and returns the first, whose score by byte size and area is 8, not the largest score 10;
  the run archives the larger file and keeps the smaller.
\<close>

theorem best_copy_ignores_byte_size:
  "scores_of sized_pair = Inr [10, 10]
   \<and> best_copy sized_pair = Inr (photo ''A'' ''/photos/wedding/a.jpg'' ''timeline'' 100 20 10)
   \<and> map spec_byte_size sized_pair = [100, 200]
   \<and> map (spec_score sized_pair) sized_pair = [8, 10]
   \<and> blessed_copies_of ''/photos/wedding'' sized_pair = sized_pair
   \<and> dedup path_prefix_priority_list [\<lparr>dup_duplicateId = ''d1'', assets = sized_pair\<rparr>]
       = ([UpdateAssets [''B''] ''archive'', UpdateAssets [''A''] ''timeline''], Inr ())"
proof -
  have "map spec_byte_size sized_pair = [100, 200]" by (simp add: sized_pair_def photo_spec)
  with scores_of_sized best_copy_sized spec_scores_sized blessed_sized dedup_sized
  show ?thesis by (intro conjI)
qed

subsection \<open>A copy with unknown pixel sizes\<close>

text \<open>
  C7. A copy whose pixel sizes the service gives as null: the default 0 of the lookup
  stands for an absent key only, int(None) raises TypeError, and best_copy on the list
  of this one candidate returns nothing. The same with a second copy beside it under the
  blessed prefix: best_copy raises, and the run that called it ends with the exception.
\<close>

theorem best_copy_raises_on_null:
  "[unmeasured] \<noteq> [] \<and> best_copy [unmeasured] = Inl TypeError
   \<and> null_copies \<noteq> [] \<and> best_copy null_copies = Inl TypeError
   \<and> blessed_copies_of ''/photos/wedding'' null_copies = null_copies
   \<and> dedup path_prefix_priority_list [\<lparr>dup_duplicateId = ''d1'', assets = null_copies\<rparr>]
       = ([], Inl TypeError)"
proof -
  have "[unmeasured] \<noteq> []" and "null_copies \<noteq> []" by (simp_all add: null_copies_def)
  with best_copy_unmeasured best_copy_null blessed_null dedup_null
  show ?thesis by (intro conjI)
qed

section \<open>The path prefix and its use by the resolution engine\<close>

lemma dedup_set_calls:
  assumes "find_blessed plist g = Some bp" and "bp \<noteq> []"
  shows "fst (dedup_set plist g) = phase_a bp g @ fst (phase_b bp g)"
  using assms by (simp add: dedup_set_def split: prod.splits)

lemma phase_a_explicit:
  assumes "ids = map asset_id
             (filter (\<lambda>ass. visibility ass = ''timeline'' \<and> pfx (originalPath ass) \<noteq> bp) g)"
  shows "phase_a bp g = (if ids = [] then [] else [UpdateAssets ids ''archive''])"
  unfolding assms by (simp add: phase_a_def Let_def is_timeline_def)

lemma second_of_two: "P \<and> Q \<or> R \<Longrightarrow> \<not> P \<Longrightarrow> R"
  by blast

lemma moved_two: "list_all (\<lambda>a. pfx (moved a) = pfx (originalPath a)) two_copies"
  by (simp add: two_copies_def moved_def photo_sel pfx_paths)

lemma under_two:
  "filter (\<lambda>ass. pfx (originalPath ass) = ''/photos/wedding'') two_copies = two_copies"
  by (simp add: two_copies_def photo_sel pfx_paths)

lemma under_lonely:
  "\<not> 1 < length (filter (\<lambda>ass. pfx (originalPath ass) = ''/photos/wedding'') lonely_blessed)"
  by (simp add: lonely_blessed_def photo_sel pfx_paths)

lemma find_blessed_lonely:
  "find_blessed path_prefix_priority_list lonely_blessed = Some ''/photos/wedding''"
  unfolding lonely_blessed_def by (rule find_blessed_wedding) (simp add: photo_sel pfx_paths)

lemma find_blessed_two:
  "find_blessed path_prefix_priority_list two_copies = Some ''/photos/wedding''"
  unfolding two_copies_def by (rule find_blessed_wedding) (simp add: photo_sel pfx_paths)

lemma distinct_two: "distinct two_copies" "distinct (map asset_id two_copies)"
  by (simp_all add: two_copies_def photo_sel photo_neq)

text \<open>
  C8 (as amended). pfx returns the first three fields of the path between separators,
  joined by the separator: a path with at most two separators whole, any other path up to
  its third separator. For a path that starts with the separator and goes on with two
  non-empty components that is the separator and the first two components, the prefix of
  the specification. The run reads the paths through pfx only, and reads it in three
  places: the blessed prefix is the first entry of the priority list that is the pfx of a
  member; the first request archives the visible members whose pfx is not the blessed
  prefix; and the keeper is chosen among the members whose pfx is the blessed prefix, when
  they are more than one. Moving files in a way that keeps the pfx of every member changes
  no request.
\<close>

theorem pfx_first_three_fields:
  "((length (filter (\<lambda>x. x = CHR ''/'') path) \<le> 2 \<and> pfx path = path)
     \<or> (\<exists>a b c rest. CHR ''/'' \<notin> set a \<and> CHR ''/'' \<notin> set b \<and> CHR ''/'' \<notin> set c
           \<and> path = a @ ''/'' @ b @ ''/'' @ c @ ''/'' @ rest
           \<and> pfx path = a @ ''/'' @ b @ ''/'' @ c))
   \<and> (CHR ''/'' \<notin> set b \<and> CHR ''/'' \<notin> set c \<and> b \<noteq> [] \<and> c \<noteq> [] \<longrightarrow>
         pfx (''/'' @ b @ ''/'' @ c @ ''/'' @ rest)
           = two_component_prefix (''/'' @ b @ ''/'' @ c @ ''/'' @ rest)
       \<and> pfx (''/'' @ b @ ''/'' @ c) = two_component_prefix (''/'' @ b @ ''/'' @ c))
   \<and> (find_blessed plist g = None
        \<longleftrightarrow> (\<forall>ass\<in>set g. pfx (originalPath ass) \<notin> set plist))
   \<and> (find_blessed plist g = Some bp \<longrightarrow>
         (\<exists>i<length plist. plist ! i = bp
             \<and> (\<exists>ass\<in>set g. pfx (originalPath ass) = bp)
             \<and> (\<forall>j<i. \<forall>ass\<in>set g. pfx (originalPath ass) \<noteq> plist ! j)))
   \<and> (find_blessed plist g = Some bp \<and> bp \<noteq> []
       \<and> ids = map asset_id
           (filter (\<lambda>ass. visibility ass = ''timeline'' \<and> pfx (originalPath ass) \<noteq> bp) g)
       \<and> bl = filter (\<lambda>ass. pfx (originalPath ass) = bp) g \<longrightarrow>
         (\<not> 1 < length bl \<longrightarrow>
            fst (dedup_set plist g) = (if ids = [] then [] else [UpdateAssets ids ''archive'']))
       \<and> (1 < length bl \<and> distinct g \<and> list_all exif_ok bl \<longrightarrow>
            (\<exists>k\<in>set bl. best_copy bl = Inr k
               \<and> fst (dedup_set plist g) =
                   (if ids = [] then [] else [UpdateAssets ids ''archive''])
                   @ [UpdateAssets (map asset_id (filter (\<lambda>ass. ass \<noteq> k) g)) ''archive'',
                      UpdateAssets [asset_id k] ''timeline''])))
   \<and> (distinct (map asset_id g) \<and> (\<forall>a\<in>set g. pfx (new a) = pfx (originalPath a)) \<longrightarrow>
         dedup_set plist (map (with_path new) g) = dedup_set plist g)"
proof (intro conjI impI)
  show "(length (filter (\<lambda>x. x = CHR ''/'') path) \<le> 2 \<and> pfx path = path)
     \<or> (\<exists>a b c rest. CHR ''/'' \<notin> set a \<and> CHR ''/'' \<notin> set b \<and> CHR ''/'' \<notin> set c
           \<and> path = a @ ''/'' @ b @ ''/'' @ c @ ''/'' @ rest
           \<and> pfx path = a @ ''/'' @ b @ ''/'' @ c)"
    by (rule pfx_cases)
next
  assume h: "CHR ''/'' \<notin> set b \<and> CHR ''/'' \<notin> set c \<and> b \<noteq> [] \<and> c \<noteq> []"
  then have 1: "CHR ''/'' \<notin> set b" and 2: "CHR ''/'' \<notin> set c" and 3: "b \<noteq> []" and 4: "c \<noteq> []"
    by simp_all
  show "pfx (''/'' @ b @ ''/'' @ c @ ''/'' @ rest)
           = two_component_prefix (''/'' @ b @ ''/'' @ c @ ''/'' @ rest)"
    by (rule pfx_absolute_spec(1) [OF 1 2 3 4])
  show "pfx (''/'' @ b @ ''/'' @ c) = two_component_prefix (''/'' @ b @ ''/'' @ c)"
    by (rule pfx_absolute_spec(2) [OF 1 2 3 4])
next
  show "find_blessed plist g = None
        \<longleftrightarrow> (\<forall>ass\<in>set g. pfx (originalPath ass) \<notin> set plist)"
    by (rule find_blessed_None)
next
  assume "find_blessed plist g = Some bp"
  then show "\<exists>i<length plist. plist ! i = bp
             \<and> (\<exists>ass\<in>set g. pfx (originalPath ass) = bp)
             \<and> (\<forall>j<i. \<forall>ass\<in>set g. pfx (originalPath ass) \<noteq> plist ! j)"
    by (rule find_blessed_Some)
next
  assume h: "find_blessed plist g = Some bp \<and> bp \<noteq> []
       \<and> ids = map asset_id
           (filter (\<lambda>ass. visibility ass = ''timeline'' \<and> pfx (originalPath ass) \<noteq> bp) g)
       \<and> bl = filter (\<lambda>ass. pfx (originalPath ass) = bp) g"
    and few: "\<not> 1 < length bl"
  from h have fb: "find_blessed plist g = Some bp" and ne: "bp \<noteq> []"
    and ids: "ids = map asset_id
           (filter (\<lambda>ass. visibility ass = ''timeline'' \<and> pfx (originalPath ass) \<noteq> bp) g)"
    and bl: "bl = blessed_copies_of bp g" by (simp_all add: blessed_copies_of_def)
  have "phase_b bp g = ([], None)" by (rule phase_b_few) (use few bl in simp)
  then show "fst (dedup_set plist g) = (if ids = [] then [] else [UpdateAssets ids ''archive''])"
    by (simp add: dedup_set_calls [OF fb ne] phase_a_explicit [OF ids])
next
  assume h: "find_blessed plist g = Some bp \<and> bp \<noteq> []
       \<and> ids = map asset_id
           (filter (\<lambda>ass. visibility ass = ''timeline'' \<and> pfx (originalPath ass) \<noteq> bp) g)
       \<and> bl = filter (\<lambda>ass. pfx (originalPath ass) = bp) g"
    and many: "1 < length bl \<and> distinct g \<and> list_all exif_ok bl"
  from h have fb: "find_blessed plist g = Some bp" and ne: "bp \<noteq> []"
    and ids: "ids = map asset_id
           (filter (\<lambda>ass. visibility ass = ''timeline'' \<and> pfx (originalPath ass) \<noteq> bp) g)"
    and bl: "bl = blessed_copies_of bp g" by (simp_all add: blessed_copies_of_def)
  from many bl have m: "1 < length (blessed_copies_of bp g)" and dg: "distinct g"
    and ok: "list_all exif_ok (blessed_copies_of bp g)" by simp_all
  from phase_b_many [OF m ok] obtain k where
    k: "k \<in> set (blessed_copies_of bp g)" "best_copy (blessed_copies_of bp g) = Inr k"
       "phase_b bp g = (phase_b_calls k g, None)" by blast
  have "filter (\<lambda>a. a \<noteq> k) g \<noteq> []"
    using other_member [OF dg, of "\<lambda>ass. pfx (originalPath ass) = bp" k] m
    by (simp add: blessed_copies_of_def)
  from phase_b_calls_some [OF this] k(3)
  have "fst (dedup_set plist g) =
          (if ids = [] then [] else [UpdateAssets ids ''archive''])
          @ [UpdateAssets (map asset_id (filter (\<lambda>ass. ass \<noteq> k) g)) ''archive'',
             UpdateAssets [asset_id k] ''timeline'']"
    by (simp add: dedup_set_calls [OF fb ne] phase_a_explicit [OF ids])
  with k(1,2) show "\<exists>k\<in>set bl. best_copy bl = Inr k
               \<and> fst (dedup_set plist g) =
                   (if ids = [] then [] else [UpdateAssets ids ''archive''])
                   @ [UpdateAssets (map asset_id (filter (\<lambda>ass. ass \<noteq> k) g)) ''archive'',
                      UpdateAssets [asset_id k] ''timeline'']"
    unfolding bl by blast
next
  assume "distinct (map asset_id g) \<and> (\<forall>a\<in>set g. pfx (new a) = pfx (originalPath a))"
  then have 1: "distinct (map asset_id g)"
    and 2: "\<forall>a\<in>set g. pfx (new a) = pfx (originalPath a)" by simp_all
  show "dedup_set plist (map (with_path new) g) = dedup_set plist g"
    by (rule dedup_set_renamed [OF 1 2])
qed

theorem pfx_first_three_fields_witness:
  "\<not> length (filter (\<lambda>x. x = CHR ''/'') ''/photos/wedding/a.jpg'') \<le> 2
   \<and> (\<exists>a b c rest. CHR ''/'' \<notin> set a \<and> CHR ''/'' \<notin> set b \<and> CHR ''/'' \<notin> set c
         \<and> ''/photos/wedding/a.jpg'' = a @ ''/'' @ b @ ''/'' @ c @ ''/'' @ rest
         \<and> pfx ''/photos/wedding/a.jpg'' = a @ ''/'' @ b @ ''/'' @ c)
   \<and> CHR ''/'' \<notin> set ''photos'' \<and> CHR ''/'' \<notin> set ''wedding''
   \<and> ''photos'' \<noteq> [] \<and> ''wedding'' \<noteq> []
   \<and> pfx ''/photos/wedding/a.jpg'' = two_component_prefix ''/photos/wedding/a.jpg''
   \<and> pfx ''/photos/wedding'' = two_component_prefix ''/photos/wedding''
   \<and> find_blessed path_prefix_priority_list two_copies = Some ''/photos/wedding''
   \<and> (\<exists>i<length path_prefix_priority_list. path_prefix_priority_list ! i = ''/photos/wedding''
         \<and> (\<exists>ass\<in>set two_copies. pfx (originalPath ass) = ''/photos/wedding'')
         \<and> (\<forall>j<i. \<forall>ass\<in>set two_copies.
               pfx (originalPath ass) \<noteq> path_prefix_priority_list ! j))
   \<and> ''/photos/wedding'' \<noteq> []
   \<and> 1 < length (filter (\<lambda>ass. pfx (originalPath ass) = ''/photos/wedding'') two_copies)
   \<and> distinct two_copies
   \<and> list_all exif_ok (filter (\<lambda>ass. pfx (originalPath ass) = ''/photos/wedding'') two_copies)
   \<and> (\<exists>k\<in>set (filter (\<lambda>ass. pfx (originalPath ass) = ''/photos/wedding'') two_copies).
         best_copy (filter (\<lambda>ass. pfx (originalPath ass) = ''/photos/wedding'') two_copies) = Inr k
       \<and> fst (dedup_set path_prefix_priority_list two_copies) =
           (if map asset_id (filter (\<lambda>ass. visibility ass = ''timeline''
                  \<and> pfx (originalPath ass) \<noteq> ''/photos/wedding'') two_copies) = [] then []
            else [UpdateAssets (map asset_id (filter (\<lambda>ass. visibility ass = ''timeline''
                  \<and> pfx (originalPath ass) \<noteq> ''/photos/wedding'') two_copies)) ''archive''])
           @ [UpdateAssets (map asset_id (filter (\<lambda>ass. ass \<noteq> k) two_copies)) ''archive'',
              UpdateAssets [asset_id k] ''timeline''])
   \<and> find_blessed path_prefix_priority_list lonely_blessed = Some ''/photos/wedding''
   \<and> \<not> 1 < length (filter (\<lambda>ass. pfx (originalPath ass) = ''/photos/wedding'') lonely_blessed)
   \<and> fst (dedup_set path_prefix_priority_list lonely_blessed) =
        (if map asset_id (filter (\<lambda>ass. visibility ass = ''timeline''
               \<and> pfx (originalPath ass) \<noteq> ''/photos/wedding'') lonely_blessed) = [] then []
         else [UpdateAssets (map asset_id (filter (\<lambda>ass. visibility ass = ''timeline''
               \<and> pfx (originalPath ass) \<noteq> ''/photos/wedding'') lonely_blessed)) ''archive''])
   \<and> distinct (map asset_id two_copies)
   \<and> list_all (\<lambda>a. pfx (moved a) = pfx (originalPath a)) two_copies
   \<and> dedup_set path_prefix_priority_list (map (with_path moved) two_copies)
       = dedup_set path_prefix_priority_list two_copies"
proof -
  let ?ppl = "path_prefix_priority_list"
  let ?w = "''/photos/wedding''"
  let ?ids = "\<lambda>g. map asset_id (filter (\<lambda>ass. visibility ass = ''timeline''
                  \<and> pfx (originalPath ass) \<noteq> ?w) g)"
  let ?bl = "\<lambda>g. filter (\<lambda>ass. pfx (originalPath ass) = ?w) g"
  note T = pfx_first_three_fields [where path = "''/photos/wedding/a.jpg''" and b = "''photos''"
      and c = "''wedding''" and rest = "''a.jpg''" and plist = ?ppl and g = two_copies
      and bp = ?w and ids = "?ids two_copies" and bl = "?bl two_copies" and new = moved]
  note L = pfx_first_three_fields [where plist = ?ppl and g = lonely_blessed
      and bp = ?w and ids = "?ids lonely_blessed" and bl = "?bl lonely_blessed"]
  note t1 = T [THEN conjunct1]
  note t2 = T [THEN conjunct2, THEN conjunct1]
  note t4 = T [THEN conjunct2, THEN conjunct2, THEN conjunct2, THEN conjunct1]
  note t5 = T [THEN conjunct2, THEN conjunct2, THEN conjunct2, THEN conjunct2, THEN conjunct1]
  note t6 = T [THEN conjunct2, THEN conjunct2, THEN conjunct2, THEN conjunct2, THEN conjunct2]
  note l5 = L [THEN conjunct2, THEN conjunct2, THEN conjunct2, THEN conjunct2, THEN conjunct1]
  have n: "\<not> length (filter (\<lambda>x. x = CHR ''/'') ''/photos/wedding/a.jpg'') \<le> 2" by simp
  note e = second_of_two [OF t1 n]
  have s1: "CHR ''/'' \<notin> set ''photos''" and s2: "CHR ''/'' \<notin> set ''wedding''"
    and s3: "''photos'' \<noteq> []" and s4: "?w \<noteq> []" and s5: "''wedding'' \<noteq> []" by simp_all
  have p: "pfx (''/'' @ ''photos'' @ ''/'' @ ''wedding'' @ ''/'' @ ''a.jpg'')
           = two_component_prefix (''/'' @ ''photos'' @ ''/'' @ ''wedding'' @ ''/'' @ ''a.jpg'')
       \<and> pfx (''/'' @ ''photos'' @ ''/'' @ ''wedding'')
           = two_component_prefix (''/'' @ ''photos'' @ ''/'' @ ''wedding'')"
    by (rule t2 [THEN mp]) (intro conjI s1 s2 s3 s5)
  have p1: "pfx ''/photos/wedding/a.jpg'' = two_component_prefix ''/photos/wedding/a.jpg''"
    using p [THEN conjunct1] by simp
  have p2: "pfx ''/photos/wedding'' = two_component_prefix ''/photos/wedding''"
    using p [THEN conjunct2] by simp
  note r = t4 [THEN mp, OF find_blessed_two]
  have m1: "1 < length (?bl two_copies)" unfolding under_two by (simp add: two_copies_def)
  have m3: "list_all exif_ok (?bl two_copies)" unfolding under_two by (rule ok_two)
  have hyp_two: "find_blessed ?ppl two_copies = Some ?w \<and> ?w \<noteq> []
       \<and> ?ids two_copies = ?ids two_copies \<and> ?bl two_copies = ?bl two_copies"
    by (intro conjI find_blessed_two s4 refl)
  have hyp_lonely: "find_blessed ?ppl lonely_blessed = Some ?w \<and> ?w \<noteq> []
       \<and> ?ids lonely_blessed = ?ids lonely_blessed \<and> ?bl lonely_blessed = ?bl lonely_blessed"
    by (intro conjI find_blessed_lonely s4 refl)
  have many_two: "1 < length (?bl two_copies) \<and> distinct two_copies \<and> list_all exif_ok (?bl two_copies)"
    by (intro conjI m1 distinct_two(1) m3)
  note k = t5 [THEN mp, OF hyp_two, THEN conjunct2, THEN mp, OF many_two]
  note f = l5 [THEN mp, OF hyp_lonely, THEN conjunct1, THEN mp, OF under_lonely]
  have mv: "\<forall>a\<in>set two_copies. pfx (moved a) = pfx (originalPath a)"
    using moved_two by (simp only: list_all_iff)
  have "distinct (map asset_id two_copies) \<and> (\<forall>a\<in>set two_copies. pfx (moved a) = pfx (originalPath a))"
    by (intro conjI distinct_two(2) mv)
  note i = t6 [THEN mp, OF this]
  from n e s1 s2 s3 s5 p1 p2 find_blessed_two r s4 m1 distinct_two(1) m3 k
    find_blessed_lonely under_lonely f distinct_two(2) moved_two i
  show ?thesis by (intro conjI)
qed

text \<open>
  C8, counterexample. The path of an upload has the three-component prefix that the
  priority list names, not the prefix of its first two components.
\<close>

theorem pfx_upload_counterexample:
  "pfx upload_path = ''upload/upload/d8fbf34b-0e56-43dd-87b3-b7774f6b3f3b''
   \<and> pfx upload_path \<noteq> two_component_prefix upload_path
   \<and> pfx upload_path \<in> set path_prefix_priority_list"
  unfolding pfx_upload two_upload by (simp add: path_prefix_priority_list_def)

end
